theory Spec2Isabelle
  imports Main
begin

section \<open>Value codec: decimal text of integers\<close>

text \<open>
  \<open>SqlWriteBasic(Int_t)\<close> formats a value with \<open>snprintf(buf, "%d", value)\<close> and
  \<open>SqlReadBasic(Int_t&)\<close> parses it back with \<open>sscanf(res, "%d", &value)\<close>; the index
  tags of array runs are parsed with \<open>sscanf(name, "[%d..%d", ...)\<close>. Both are modelled
  on strings. Integers of the source (\<open>Int_t\<close>, \<open>Long64_t\<close>, \<open>Version_t\<close>) are \<open>int\<close>
  here, and a conversion that stores a number into a narrower type is written out. The
  engine does no arithmetic on a stored value, and object ids only count upwards (signed
  overflow would need \<open>2^63\<close> objects and is undefined in C++).
\<close>

definition is_digit :: "char \<Rightarrow> bool" where
  "is_digit c = (48 \<le> (of_char c :: nat) \<and> (of_char c :: nat) \<le> 57)"

definition digit_val :: "char \<Rightarrow> nat" where
  "digit_val c = (of_char c :: nat) - 48"

definition digit_char :: "nat \<Rightarrow> char" where
  "digit_char d = char_of (48 + d)"

definition isspace :: "char \<Rightarrow> bool" where
  "isspace c = ((of_char c :: nat) = 32 \<or> (9 \<le> (of_char c :: nat) \<and> (of_char c :: nat) \<le> 13))"

function dec_digits :: "nat \<Rightarrow> string" where
  "dec_digits n = (if n < 10 then [digit_char n]
                   else dec_digits (n div 10) @ [digit_char (n mod 10)])"
  by pat_completeness auto
termination
  by (relation "measure (\<lambda>n. n)") auto

declare dec_digits.simps [simp del]

text \<open>\<open>snprintf(buf, sizeof(buf), "%d", value)\<close>: decimal digits, a minus sign for a
  negative value.\<close>

definition snprintf_d :: "int \<Rightarrow> string" where
  "snprintf_d i = (if i < 0 then CHR ''-'' # dec_digits (nat (- i)) else dec_digits (nat i))"

fun scan_digits :: "nat \<Rightarrow> string \<Rightarrow> nat \<times> string" where
  "scan_digits acc [] = (acc, [])"
| "scan_digits acc (c # cs) =
     (if is_digit c then scan_digits (10 * acc + digit_val c) cs else (acc, c # cs))"

text \<open>
  The number that a decimal conversion of \<open>sscanf\<close> reads: leading white space is
  skipped, an optional sign is read, then at least one digit. The result is the value of
  the digits and the unread rest of the input; \<open>None\<close> when the conversion fails, in which
  case \<open>sscanf\<close> leaves the target variable as it was.
\<close>

definition scan_number :: "string \<Rightarrow> (int \<times> string) option" where
  "scan_number str =
     (case dropWhile isspace str of
        [] \<Rightarrow> None
      | c # cs \<Rightarrow>
          (let neg = (c = CHR ''-'');
               body = (if c = CHR ''-'' \<or> c = CHR ''+'' then cs else c # cs)
           in case body of
                [] \<Rightarrow> None
              | d # ds \<Rightarrow>
                  if is_digit d
                  then (case scan_digits 0 body of
                          (n, rest) \<Rightarrow> Some (if neg then - int n else int n, rest))
                  else None))"

text \<open>
  The machine integers of the source. The C library converts the digits as \<open>strtol\<close> and
  \<open>strtoll\<close> do, into a 64-bit number that stays at the nearest bound when the digits
  are beyond it (\<open>Long64_clamp\<close>). A narrower target keeps the low bits of that number,
  read as a signed number: 32 bits for an \<open>Int_t\<close> (the same conversion as the one from
  \<open>Long64_t\<close> to \<open>Int_t\<close>), 16 bits for a \<open>Version_t\<close>, which is a \<open>short\<close>.
\<close>

definition Long64_clamp :: "int \<Rightarrow> int" where
  "Long64_clamp x = max (- 9223372036854775808) (min 9223372036854775807 x)"

definition Int_t_of_Long64 :: "int \<Rightarrow> int" where
  "Int_t_of_Long64 x = (x + 2147483648) mod 4294967296 - 2147483648"

definition Version_t_of_Int :: "int \<Rightarrow> int" where
  "Version_t_of_Int x = (x + 32768) mod 65536 - 32768"

definition is_Int_t :: "int \<Rightarrow> bool" where
  "is_Int_t x = (- 2147483648 \<le> x \<and> x \<le> 2147483647)"

text \<open>One \<open>%d\<close> conversion of \<open>sscanf\<close> into an \<open>Int_t\<close>, and one \<open>%lld\<close> conversion
  into a \<open>Long64_t\<close>.\<close>

definition scan_d :: "string \<Rightarrow> (int \<times> string) option" where
  "scan_d str =
     (case scan_number str of
        None \<Rightarrow> None
      | Some (n, rest) \<Rightarrow> Some (Int_t_of_Long64 (Long64_clamp n), rest))"

definition scan_lld :: "string \<Rightarrow> (int \<times> string) option" where
  "scan_lld str =
     (case scan_number str of
        None \<Rightarrow> None
      | Some (n, rest) \<Rightarrow> Some (Long64_clamp n, rest))"

lemma digit_char_is_digit: "d < 10 \<Longrightarrow> is_digit (digit_char d)"
  by (simp add: is_digit_def digit_char_def)

lemma digit_val_digit_char: "d < 10 \<Longrightarrow> digit_val (digit_char d) = d"
  by (simp add: digit_val_def digit_char_def)

lemma digit_char_not_space: "d < 10 \<Longrightarrow> \<not> isspace (digit_char d)"
  by (simp add: isspace_def digit_char_def)

lemma is_digit_not_sign: "is_digit c \<Longrightarrow> c \<noteq> CHR ''-'' \<and> c \<noteq> CHR ''+'' \<and> c \<noteq> CHR ''.''"
  by (auto simp: is_digit_def)

lemma dec_digits_all_digits: "\<forall>c \<in> set (dec_digits n). is_digit c"
proof (induction n rule: dec_digits.induct)
  case (1 n)
  show ?case
  proof (cases "n < 10")
    case True
    then show ?thesis
      by (subst dec_digits.simps) (simp add: digit_char_is_digit)
  next
    case False
    with "1" show ?thesis
      by (subst dec_digits.simps) (simp add: digit_char_is_digit)
  qed
qed

lemma dec_digits_nonempty: "dec_digits n \<noteq> []"
  by (subst dec_digits.simps) simp

lemma scan_digits_dec_digits:
  "scan_digits acc (dec_digits n @ r) = scan_digits (acc * 10 ^ length (dec_digits n) + n) r"
proof (induction n arbitrary: acc r rule: dec_digits.induct)
  case (1 n)
  show ?case
  proof (cases "n < 10")
    case True
    then show ?thesis
      by (subst (1 2) dec_digits.simps)
         (simp add: digit_char_is_digit digit_val_digit_char mult.commute)
  next
    case False
    have step: "scan_digits acc (dec_digits (n div 10) @ digit_char (n mod 10) # r) =
                scan_digits (acc * 10 ^ length (dec_digits (n div 10)) + n div 10)
                            (digit_char (n mod 10) # r)"
      using "1.IH" [OF False, of acc "digit_char (n mod 10) # r"] by simp
    have len: "length (dec_digits n) = Suc (length (dec_digits (n div 10)))"
      using False by (subst dec_digits.simps) simp
    have cat: "dec_digits n @ r = dec_digits (n div 10) @ digit_char (n mod 10) # r"
      using False by (subst dec_digits.simps) simp
    have arith: "10 * (acc * 10 ^ length (dec_digits (n div 10)) + n div 10) + n mod 10
                 = acc * 10 ^ Suc (length (dec_digits (n div 10))) + n"
      by (simp add: algebra_simps)
    have one: "scan_digits (acc * 10 ^ length (dec_digits (n div 10)) + n div 10)
                           (digit_char (n mod 10) # r) =
               scan_digits (10 * (acc * 10 ^ length (dec_digits (n div 10)) + n div 10) + n mod 10) r"
      by (simp add: digit_char_is_digit digit_val_digit_char)
    show ?thesis
      unfolding cat len step one arith ..
  qed
qed

lemma scan_digits_stop:
  "r = [] \<or> \<not> is_digit (hd r) \<Longrightarrow> scan_digits acc r = (acc, r)"
  by (cases r) auto

lemma dec_digits_hd: "\<exists>d ds. dec_digits n = d # ds \<and> is_digit d"
  using dec_digits_nonempty [of n] dec_digits_all_digits [of n]
  by (cases "dec_digits n") auto

lemma is_digit_not_space: "is_digit c \<Longrightarrow> \<not> isspace c"
  by (auto simp: is_digit_def isspace_def)

lemma scan_number_dec_digits:
  assumes "r = [] \<or> \<not> is_digit (hd r)"
  shows "scan_number (dec_digits n @ r) = Some (int n, r)"
proof -
  obtain d ds where d: "dec_digits n = d # ds" "is_digit d"
    using dec_digits_hd by blast
  have sc: "scan_digits 0 (d # ds @ r) = (n, r)"
    using scan_digits_dec_digits [of 0 n r] scan_digits_stop [OF assms, of n] d by simp
  have sp: "\<not> isspace d" using d is_digit_not_space by blast
  have sg: "d \<noteq> CHR ''-''" "d \<noteq> CHR ''+''" using d is_digit_not_sign by blast+
  show ?thesis
    unfolding scan_number_def d using sp sg d(2) sc by simp
qed

lemma scan_number_snprintf_d:
  assumes "r = [] \<or> \<not> is_digit (hd r)"
  shows "scan_number (snprintf_d i @ r) = Some (i, r)"
proof (cases "i < 0")
  case False
  then show ?thesis
    using scan_number_dec_digits [OF assms, of "nat i"] by (simp add: snprintf_d_def)
next
  case True
  obtain d ds where d: "dec_digits (nat (- i)) = d # ds" "is_digit d"
    using dec_digits_hd by blast
  have sc: "scan_digits 0 (d # ds @ r) = (nat (- i), r)"
    using scan_digits_dec_digits [of 0 "nat (- i)" r]
          scan_digits_stop [OF assms, of "nat (- i)"] d by simp
  have m: "\<not> isspace (CHR ''-'')" by (simp add: isspace_def)
  show ?thesis
    unfolding scan_number_def snprintf_d_def using True d m sc by simp
qed

lemma Int_t_of_Long64_clamp: "is_Int_t i \<Longrightarrow> Int_t_of_Long64 (Long64_clamp i) = i"
  by (simp add: is_Int_t_def Int_t_of_Long64_def Long64_clamp_def)

lemma scan_d_snprintf_d:
  assumes "is_Int_t i" and "r = [] \<or> \<not> is_digit (hd r)"
  shows "scan_d (snprintf_d i @ r) = Some (i, r)"
  using scan_number_snprintf_d [OF assms(2), of i] Int_t_of_Long64_clamp [OF assms(1)]
  by (simp add: scan_d_def)

lemma scan_lld_snprintf_d:
  assumes "- 9223372036854775808 \<le> i" and "i \<le> 9223372036854775807"
    and "r = [] \<or> \<not> is_digit (hd r)"
  shows "scan_lld (snprintf_d i @ r) = Some (i, r)"
  using scan_number_snprintf_d [OF assms(3), of i] assms(1,2)
  by (simp add: scan_lld_def Long64_clamp_def)

section \<open>Collaborators of the buffer\<close>

text \<open>
  The buffer \<open>TBufferSQL2\<close> works on three classes that are declared outside
  \<open>TBufferSQL2.cxx\<close>: the structure tree \<open>TSQLStructure\<close>, the row cursor
  \<open>TSQLObjectData\<close> (with its pool \<open>TSQLObjectDataPool\<close>) and the storage layer
  \<open>TSQLFile\<close>. They are modelled here from the specification, with the member names
  the buffer calls them by.
\<close>

type_synonym TClass = string

datatype ESQLTypes =
    kSqlUnknown | kSqlObject | kSqlPointer | kSqlStreamerInfo | kSqlCustomClass
  | kSqlElement | kSqlCustomElement | kSqlArray | kSqlValue

text \<open>
  Modelled from the spec: \<open>TSQLStructure\<close>, the StructureNode of the data model. A node has
  a kind, a parent, and by kind an object id and class (Object, ObjectReference), array
  bounds (Array), or a literal text with its type marker (Value); a Value inside an Array
  also carries the start index and the length of the run it stands for. Nodes live in a
  store (a list); a pointer to a node is its position, the null pointer is \<open>None\<close>.
\<close>

record TSQLStructure =
  fParent :: "nat option"
  fType :: ESQLTypes
  fObjId :: int
  fClass :: "TClass option"
  fValue :: string
  fTypeName :: string
  fArraySize :: int
  fArrayIndex :: int
  fRepeatCnt :: int
  fChilds :: "nat list"

definition new_TSQLStructure :: TSQLStructure where
  "new_TSQLStructure =
     \<lparr>fParent = None, fType = kSqlUnknown, fObjId = 0, fClass = None, fValue = [],
      fTypeName = [], fArraySize = - 1, fArrayIndex = - 1, fRepeatCnt = 1, fChilds = []\<rparr>"

text \<open>
  Modelled from the spec: the type marker strings of namespace \<open>sqlio\<close> (declared with
  \<open>TSQLStructure\<close>). The theorems use only that the markers involved are different
  strings.
\<close>

definition sqlio_Int :: string where "sqlio_Int = ''Int_t''"
definition sqlio_Char :: string where "sqlio_Char = ''Char_t''"
definition sqlio_CharStar :: string where "sqlio_CharStar = ''CharStar''"
definition sqlio_Array :: string where "sqlio_Array = ''Array''"
definition sqlio_ObjectRef :: string where "sqlio_ObjectRef = ''ObjectRef''"
definition sqlio_ObjectPtr :: string where "sqlio_ObjectPtr = ''ObjectPtr''"
definition sqlio_Version :: string where "sqlio_Version = ''Version''"
definition sqlio_IndexSepar :: string where "sqlio_IndexSepar = ''..''"

text \<open>
  Modelled from the spec: a table descriptor \<open>TSQLClassInfo\<close>, one per class name and
  version, with the flag whether a column table exists for the class.
\<close>

record TSQLClassInfo =
  fClassName :: string
  fClassVersion :: int
  GetClassTableName :: string
  IsClassTableExist :: bool

text \<open>
  Modelled from the spec: one located value of a \<open>TSQLObjectData\<close> cursor. In free-form
  (blob) storage a value comes with a prefix name (the index tag of an array run) and the
  type marker it was written with.
\<close>

record sql_cell =
  BlobPrefixName :: string
  BlobTypeName :: string
  LocatedValue :: "string option"

type_synonym TSQLRow = "string list"
type_synonym TSQLResult = "(int \<times> TSQLRow) list"

text \<open>
  Modelled from the spec: \<open>TSQLObjectData\<close>, the ObjectDataCursor: the row of the class
  table and the free-form values of one object, with the values still to be read from
  the current position on. \<open>ShiftToNextValue\<close> advances by one logical value.
\<close>

record TSQLObjectData =
  fInfo :: "TSQLClassInfo option"
  fDataObjId :: int
  fClassData :: "TSQLResult option"
  fClassRow :: "TSQLRow option"
  IsBlobData :: bool
  fCells :: "sql_cell list"

definition GetValue :: "TSQLObjectData \<Rightarrow> string option" where
  "GetValue d = (case fCells d of [] \<Rightarrow> None | c # _ \<Rightarrow> LocatedValue c)"

definition GetBlobPrefixName :: "TSQLObjectData \<Rightarrow> string option" where
  "GetBlobPrefixName d = (case fCells d of [] \<Rightarrow> None | c # _ \<Rightarrow> Some (BlobPrefixName c))"

definition ShiftToNextValue :: "TSQLObjectData \<Rightarrow> TSQLObjectData" where
  "ShiftToNextValue d = d\<lparr>fCells := tl (fCells d)\<rparr>"

text \<open>
  Modelled from the spec: \<open>VerifyDataType\<close> compares the type marker stored with the
  current value to the expected one. Column data carries no marker of its own (the
  column is typed by the class layout), so only free-form data can disagree.
\<close>

definition VerifyDataType :: "TSQLObjectData \<Rightarrow> string \<Rightarrow> bool" where
  "VerifyDataType d tname =
     (if \<not> IsBlobData d then True
      else (case fCells d of [] \<Rightarrow> False | c # _ \<Rightarrow> BlobTypeName c = tname))"

text \<open>Modelled from the spec: \<open>TSQLObjectDataPool\<close>, the fetched rows of one class table;
  \<open>GetObjectRow\<close> is the lookup of an object id in them.\<close>

record TSQLObjectDataPool =
  GetSqlInfo :: TSQLClassInfo
  GetClassData :: TSQLResult

definition GetObjectRow :: "TSQLObjectDataPool \<Rightarrow> int \<Rightarrow> TSQLRow option" where
  "GetObjectRow pool objid = map_of (GetClassData pool) objid"

text \<open>
  Modelled from the spec: the storage collaborator \<open>TSQLFile\<close>, as the answers it gives to
  the buffer: the bulk fetch of a class table over an id range, the free-form data of one
  object (as a statement or as a result), the long-string facility, the table descriptor
  of a class and version, and the object-info list of a key.
\<close>

record TSQLObjectInfo =
  GetObjId :: int
  GetObjClassName :: string
  GetObjVersion :: int

record TSQLFile =
  GetNormalClassDataAll :: "int \<Rightarrow> int \<Rightarrow> TSQLClassInfo \<Rightarrow> TSQLResult option"
  GetBlobClassDataStmt :: "int \<Rightarrow> TSQLClassInfo \<Rightarrow> sql_cell list option"
  GetBlobClassData :: "int \<Rightarrow> TSQLClassInfo \<Rightarrow> sql_cell list option"
  IsLongStringCode :: "int \<Rightarrow> string \<Rightarrow> int"
  GetLongString :: "int \<Rightarrow> int \<Rightarrow> string"
  FindSQLClassInfo :: "string \<Rightarrow> int \<Rightarrow> TSQLClassInfo option"
  SQLObjectsInfo :: "int \<Rightarrow> TSQLObjectInfo list option"
  GetCompressionLevel :: int

section \<open>The buffer\<close>

text \<open>
  The fields of \<open>TBufferSQL2\<close>. \<open>nodes\<close> and \<open>odata\<close> are the stores of the structure
  nodes and of the object data the buffer has allocated; \<open>fStructure\<close>, \<open>fStk\<close> and
  \<open>fCurrentData\<close> point into them. \<open>fObjMap\<close> is the \<open>TExMap\<close> (null until first used),
  from addresses to id offsets when writing and from id offsets to instances when
  reading. \<open>diag\<close> records the calls of \<open>Error(location, message)\<close>, and \<open>fetches\<close> the
  bulk fetches sent to the storage layer.
\<close>

record TBufferSQL2 =
  fSQL :: "TSQLFile option"
  nodes :: "TSQLStructure list"
  fStructure :: "nat option"
  fStk :: "nat option"
  fObjMap :: "(int \<rightharpoonup> int) option"
  fReadBuffer :: string
  fErrorFlag :: int
  fExpectedChain :: bool
  fCompressLevel :: int
  fReadVersionBuffer :: int
  fObjIdCounter :: int
  fIgnoreVerification :: bool
  odata :: "TSQLObjectData list"
  fCurrentData :: "nat option"
  fObjectsInfos :: "TSQLObjectInfo list option"
  fFirstObjId :: int
  fLastObjId :: int
  fPoolsMap :: "(TSQLClassInfo \<rightharpoonup> TSQLObjectDataPool) option"
  diag :: "(string \<times> string) list"
  fetches :: "(int \<times> int \<times> TSQLClassInfo) list"

text \<open>The constructor \<open>TBufferSQL2(mode, file)\<close>.\<close>

definition TBufferSQL2_new :: "TSQLFile option \<Rightarrow> TBufferSQL2" where
  "TBufferSQL2_new file =
     \<lparr>fSQL = file, nodes = [], fStructure = None, fStk = None, fObjMap = None,
      fReadBuffer = [], fErrorFlag = 0, fExpectedChain = False,
      fCompressLevel = (case file of None \<Rightarrow> 0 | Some f \<Rightarrow> GetCompressionLevel f),
      fReadVersionBuffer = - 1, fObjIdCounter = 1, fIgnoreVerification = False,
      odata = [], fCurrentData = None, fObjectsInfos = None, fFirstObjId = 0,
      fLastObjId = 0, fPoolsMap = None, diag = [], fetches = []\<rparr>"

definition Error :: "string \<Rightarrow> string \<Rightarrow> TBufferSQL2 \<Rightarrow> TBufferSQL2" where
  "Error location msg s = s\<lparr>diag := diag s @ [(location, msg)]\<rparr>"

subsection \<open>The stack of structure nodes\<close>

text \<open>
  \<open>PushStack\<close> allocates a node, makes it the root when the stack is empty and a child
  of the current node otherwise, and makes it current. \<open>PopStack\<close> returns to the parent,
  and returns null at once when the stack is empty. Both return the new \<open>fStk\<close>, which
  the model reads from the state.
\<close>

definition PushStack :: "TBufferSQL2 \<Rightarrow> TBufferSQL2" where
  "PushStack s =
     (let res = length (nodes s) in
      case fStk s of
        None \<Rightarrow> s\<lparr>nodes := nodes s @ [new_TSQLStructure], fStructure := Some res,
                   fStk := Some res\<rparr>
      | Some p \<Rightarrow> s\<lparr>nodes := (nodes s)[p := (nodes s ! p)\<lparr>fChilds := fChilds (nodes s ! p) @ [res]\<rparr>]
                              @ [new_TSQLStructure\<lparr>fParent := Some p\<rparr>],
                     fStk := Some res\<rparr>)"

definition PopStack :: "TBufferSQL2 \<Rightarrow> TBufferSQL2" where
  "PopStack s =
     (case fStk s of
        None \<Rightarrow> s
      | Some p \<Rightarrow> s\<lparr>fStk := fParent (nodes s ! p)\<rparr>)"

text \<open>
  \<open>Stack()->...\<close>: the buffer calls a member of the current node without testing the
  pointer. \<open>on_Stack f\<close> applies \<open>f\<close> to the current node; with an empty stack the source
  dereferences null, which the model leaves as no change (every use below follows a
  \<open>PushStack\<close> or is stated for a non-empty stack).
\<close>

definition on_Stack :: "(TSQLStructure \<Rightarrow> TSQLStructure) \<Rightarrow> TBufferSQL2 \<Rightarrow> TBufferSQL2" where
  "on_Stack f s =
     (case fStk s of
        None \<Rightarrow> s
      | Some p \<Rightarrow> s\<lparr>nodes := (nodes s)[p := f (nodes s ! p)]\<rparr>)"

text \<open>Modelled from the spec: the setters of \<open>TSQLStructure\<close> the buffer uses: an Object
  node with its id and class, a reference (pointer) node with the id it refers to, an
  Array node with its bounds.\<close>

definition SetObjectRef :: "int \<Rightarrow> TClass option \<Rightarrow> TSQLStructure \<Rightarrow> TSQLStructure" where
  "SetObjectRef objid cl n = n\<lparr>fType := kSqlObject, fObjId := objid, fClass := cl\<rparr>"

definition SetObjectPointer :: "int \<Rightarrow> TSQLStructure \<Rightarrow> TSQLStructure" where
  "SetObjectPointer ptrid n = n\<lparr>fType := kSqlPointer, fObjId := ptrid\<rparr>"

definition SetArray :: "int \<Rightarrow> TSQLStructure \<Rightarrow> TSQLStructure" where
  "SetArray sz n = n\<lparr>fType := kSqlArray, fArraySize := sz\<rparr>"

text \<open>Modelled from the spec: \<open>AddValue\<close> appends a Value child with the text and its
  type marker to the current node.\<close>

definition Stack_AddValue :: "string \<Rightarrow> string \<Rightarrow> TBufferSQL2 \<Rightarrow> TBufferSQL2" where
  "Stack_AddValue v tname s =
     (case fStk s of
        None \<Rightarrow> s
      | Some p \<Rightarrow>
          s\<lparr>nodes := (nodes s)[p := (nodes s ! p)\<lparr>fChilds := fChilds (nodes s ! p) @ [length (nodes s)]\<rparr>]
                      @ [new_TSQLStructure\<lparr>fParent := Some p, fType := kSqlValue,
                                           fValue := v, fTypeName := tname\<rparr>]\<rparr>)"

text \<open>Modelled from the spec: \<open>ChildArrayIndex(index, cnt)\<close> records on the last child of
  the current node, when that is a Value, the start index and the length of its run.\<close>

definition Stack_ChildArrayIndex :: "int \<Rightarrow> int \<Rightarrow> TBufferSQL2 \<Rightarrow> TBufferSQL2" where
  "Stack_ChildArrayIndex index cnt s =
     (case fStk s of
        None \<Rightarrow> s
      | Some p \<Rightarrow>
          if fChilds (nodes s ! p) = [] then s
          else (let l = last (fChilds (nodes s ! p)) in
                if fType (nodes s ! l) = kSqlValue
                then s\<lparr>nodes := (nodes s)[l := (nodes s ! l)\<lparr>fArrayIndex := index, fRepeatCnt := cnt\<rparr>]\<rparr>
                else s))"

text \<open>The stack operations change the node store and the stack pointers only.\<close>

lemma PushStack_frame [simp]:
  "fSQL (PushStack s) = fSQL s"
  "fObjMap (PushStack s) = fObjMap s"
  "fReadBuffer (PushStack s) = fReadBuffer s"
  "fErrorFlag (PushStack s) = fErrorFlag s"
  "fExpectedChain (PushStack s) = fExpectedChain s"
  "fCompressLevel (PushStack s) = fCompressLevel s"
  "fReadVersionBuffer (PushStack s) = fReadVersionBuffer s"
  "fObjIdCounter (PushStack s) = fObjIdCounter s"
  "fIgnoreVerification (PushStack s) = fIgnoreVerification s"
  "odata (PushStack s) = odata s"
  "fCurrentData (PushStack s) = fCurrentData s"
  "fObjectsInfos (PushStack s) = fObjectsInfos s"
  "fFirstObjId (PushStack s) = fFirstObjId s"
  "fLastObjId (PushStack s) = fLastObjId s"
  "fPoolsMap (PushStack s) = fPoolsMap s"
  "diag (PushStack s) = diag s"
  "fetches (PushStack s) = fetches s"
  by (simp_all add: PushStack_def Let_def split: option.splits)

lemma PopStack_frame [simp]:
  "fSQL (PopStack s) = fSQL s"
  "fObjMap (PopStack s) = fObjMap s"
  "fReadBuffer (PopStack s) = fReadBuffer s"
  "fErrorFlag (PopStack s) = fErrorFlag s"
  "fExpectedChain (PopStack s) = fExpectedChain s"
  "fCompressLevel (PopStack s) = fCompressLevel s"
  "fReadVersionBuffer (PopStack s) = fReadVersionBuffer s"
  "fObjIdCounter (PopStack s) = fObjIdCounter s"
  "fIgnoreVerification (PopStack s) = fIgnoreVerification s"
  "odata (PopStack s) = odata s"
  "fCurrentData (PopStack s) = fCurrentData s"
  "fObjectsInfos (PopStack s) = fObjectsInfos s"
  "fFirstObjId (PopStack s) = fFirstObjId s"
  "fLastObjId (PopStack s) = fLastObjId s"
  "fPoolsMap (PopStack s) = fPoolsMap s"
  "diag (PopStack s) = diag s"
  "fetches (PopStack s) = fetches s"
  by (simp_all add: PopStack_def split: option.splits)

lemma on_Stack_frame [simp]:
  "fSQL (on_Stack f s) = fSQL s"
  "fObjMap (on_Stack f s) = fObjMap s"
  "fReadBuffer (on_Stack f s) = fReadBuffer s"
  "fErrorFlag (on_Stack f s) = fErrorFlag s"
  "fExpectedChain (on_Stack f s) = fExpectedChain s"
  "fCompressLevel (on_Stack f s) = fCompressLevel s"
  "fReadVersionBuffer (on_Stack f s) = fReadVersionBuffer s"
  "fObjIdCounter (on_Stack f s) = fObjIdCounter s"
  "fIgnoreVerification (on_Stack f s) = fIgnoreVerification s"
  "odata (on_Stack f s) = odata s"
  "fCurrentData (on_Stack f s) = fCurrentData s"
  "fObjectsInfos (on_Stack f s) = fObjectsInfos s"
  "fFirstObjId (on_Stack f s) = fFirstObjId s"
  "fLastObjId (on_Stack f s) = fLastObjId s"
  "fPoolsMap (on_Stack f s) = fPoolsMap s"
  "diag (on_Stack f s) = diag s"
  "fetches (on_Stack f s) = fetches s"
  by (simp_all add: on_Stack_def split: option.splits)

lemma Stack_AddValue_frame [simp]:
  "fSQL (Stack_AddValue v tn s) = fSQL s"
  "fObjMap (Stack_AddValue v tn s) = fObjMap s"
  "fReadBuffer (Stack_AddValue v tn s) = fReadBuffer s"
  "fErrorFlag (Stack_AddValue v tn s) = fErrorFlag s"
  "fExpectedChain (Stack_AddValue v tn s) = fExpectedChain s"
  "fCompressLevel (Stack_AddValue v tn s) = fCompressLevel s"
  "fReadVersionBuffer (Stack_AddValue v tn s) = fReadVersionBuffer s"
  "fObjIdCounter (Stack_AddValue v tn s) = fObjIdCounter s"
  "fIgnoreVerification (Stack_AddValue v tn s) = fIgnoreVerification s"
  "odata (Stack_AddValue v tn s) = odata s"
  "fCurrentData (Stack_AddValue v tn s) = fCurrentData s"
  "fObjectsInfos (Stack_AddValue v tn s) = fObjectsInfos s"
  "fFirstObjId (Stack_AddValue v tn s) = fFirstObjId s"
  "fLastObjId (Stack_AddValue v tn s) = fLastObjId s"
  "fPoolsMap (Stack_AddValue v tn s) = fPoolsMap s"
  "diag (Stack_AddValue v tn s) = diag s"
  "fetches (Stack_AddValue v tn s) = fetches s"
  by (simp_all add: Stack_AddValue_def split: option.splits)

lemma Stack_ChildArrayIndex_frame [simp]:
  "fSQL (Stack_ChildArrayIndex i k s) = fSQL s"
  "fObjMap (Stack_ChildArrayIndex i k s) = fObjMap s"
  "fReadBuffer (Stack_ChildArrayIndex i k s) = fReadBuffer s"
  "fErrorFlag (Stack_ChildArrayIndex i k s) = fErrorFlag s"
  "fExpectedChain (Stack_ChildArrayIndex i k s) = fExpectedChain s"
  "fCompressLevel (Stack_ChildArrayIndex i k s) = fCompressLevel s"
  "fReadVersionBuffer (Stack_ChildArrayIndex i k s) = fReadVersionBuffer s"
  "fObjIdCounter (Stack_ChildArrayIndex i k s) = fObjIdCounter s"
  "fIgnoreVerification (Stack_ChildArrayIndex i k s) = fIgnoreVerification s"
  "odata (Stack_ChildArrayIndex i k s) = odata s"
  "fCurrentData (Stack_ChildArrayIndex i k s) = fCurrentData s"
  "fObjectsInfos (Stack_ChildArrayIndex i k s) = fObjectsInfos s"
  "fFirstObjId (Stack_ChildArrayIndex i k s) = fFirstObjId s"
  "fLastObjId (Stack_ChildArrayIndex i k s) = fLastObjId s"
  "fPoolsMap (Stack_ChildArrayIndex i k s) = fPoolsMap s"
  "diag (Stack_ChildArrayIndex i k s) = diag s"
  "fetches (Stack_ChildArrayIndex i k s) = fetches s"
  by (simp_all add: Stack_ChildArrayIndex_def Let_def split: option.splits)

subsection \<open>Writing values and arrays\<close>

definition SqlWriteValue :: "string \<Rightarrow> string \<Rightarrow> TBufferSQL2 \<Rightarrow> TBufferSQL2" where
  "SqlWriteValue v tname s = Stack_AddValue v tname s"

text \<open>\<open>SqlWriteBasic(Int_t value)\<close>.\<close>

definition SqlWriteBasic_Int :: "int \<Rightarrow> TBufferSQL2 \<Rightarrow> TBufferSQL2" where
  "SqlWriteBasic_Int v s = SqlWriteValue (snprintf_d v) sqlio_Int s"

text \<open>\<open>SqlWriteBasic(Char_t value)\<close>: a character is written as the decimal text of its
  (signed) code.\<close>

definition Char_t_val :: "char \<Rightarrow> int" where
  "Char_t_val c = (if (of_char c :: nat) < 128 then int (of_char c) else int (of_char c) - 256)"

definition SqlWriteBasic_Char :: "char \<Rightarrow> TBufferSQL2 \<Rightarrow> TBufferSQL2" where
  "SqlWriteBasic_Char c s = SqlWriteValue (snprintf_d (Char_t_val c)) sqlio_Char s"

text \<open>
  The macros \<open>SQLWriteArrayNoncompress\<close>, \<open>SQLWriteArrayCompress\<close> and
  \<open>SQLWriteArrayContent\<close>, for an array \<open>vname\<close> of which \<open>arrsize\<close> elements are
  written, with \<open>wr\<close> the \<open>SqlWriteBasic\<close> of the element type. \<open>run_end\<close> is the inner
  loop \<open>while ((indx<arrsize) && (vname[indx]==vname[curr])) indx++\<close>.
\<close>

function SQLWriteArrayNoncompress ::
  "('a \<Rightarrow> TBufferSQL2 \<Rightarrow> TBufferSQL2) \<Rightarrow> 'a list \<Rightarrow> int \<Rightarrow> nat \<Rightarrow> TBufferSQL2 \<Rightarrow> TBufferSQL2" where
  "SQLWriteArrayNoncompress wr vname arrsize indx s =
     (if int indx < arrsize
      then SQLWriteArrayNoncompress wr vname arrsize (indx + 1)
             (Stack_ChildArrayIndex (int indx) 1 (wr (vname ! indx) s))
      else s)"
  by pat_completeness auto
termination
  by (relation "measure (\<lambda>(wr, vname, arrsize, indx, s). nat (arrsize - int indx))") auto

function run_end :: "'a list \<Rightarrow> int \<Rightarrow> nat \<Rightarrow> nat \<Rightarrow> nat" where
  "run_end vname arrsize cur indx =
     (if int indx < arrsize \<and> vname ! indx = vname ! cur
      then run_end vname arrsize cur (indx + 1) else indx)"
  by pat_completeness auto
termination
  by (relation "measure (\<lambda>(vname, arrsize, cur, indx). nat (arrsize - int indx))") auto

declare run_end.simps [simp del]

lemma run_end_ge: "indx \<le> run_end vname arrsize cur indx"
proof (induction vname arrsize cur indx rule: run_end.induct)
  case (1 vname arrsize cur indx)
  show ?case
  proof (cases "int indx < arrsize \<and> vname ! indx = vname ! cur")
    case True
    then show ?thesis using "1" by (subst run_end.simps) simp
  next
    case False
    then show ?thesis by (subst run_end.simps) auto
  qed
qed

function SQLWriteArrayCompress ::
  "('a \<Rightarrow> TBufferSQL2 \<Rightarrow> TBufferSQL2) \<Rightarrow> 'a list \<Rightarrow> int \<Rightarrow> nat \<Rightarrow> TBufferSQL2 \<Rightarrow> TBufferSQL2" where
  "SQLWriteArrayCompress wr vname arrsize indx s =
     (if int indx < arrsize
      then (let cur = indx;
                indx' = run_end vname arrsize cur (indx + 1)
            in SQLWriteArrayCompress wr vname arrsize indx'
                 (Stack_ChildArrayIndex (int cur) (int indx' - int cur) (wr (vname ! cur) s)))
      else s)"
  by pat_completeness auto
termination
proof (relation "measure (\<lambda>(wr, vname, arrsize, indx, s). nat (arrsize - int indx))")
  show "wf (measure (\<lambda>(wr, vname, arrsize, indx, s). nat (arrsize - int indx)))" by simp
next
  fix wr :: "'a \<Rightarrow> TBufferSQL2 \<Rightarrow> TBufferSQL2" and vname :: "'a list" and arrsize :: int
    and indx :: nat and s :: TBufferSQL2 and x xa
  assume "int indx < arrsize" "x = indx" "xa = run_end vname arrsize x (indx + 1)"
  then show "((wr, vname, arrsize, xa,
               Stack_ChildArrayIndex (int x) (int xa - int x) (wr (vname ! x) s)),
              wr, vname, arrsize, indx, s)
             \<in> measure (\<lambda>(wr, vname, arrsize, indx, s). nat (arrsize - int indx))"
    using run_end_ge [of "indx + 1" vname arrsize indx] by simp
qed

declare SQLWriteArrayNoncompress.simps [simp del]
declare SQLWriteArrayCompress.simps [simp del]

definition SQLWriteArrayContent ::
  "('a \<Rightarrow> TBufferSQL2 \<Rightarrow> TBufferSQL2) \<Rightarrow> 'a list \<Rightarrow> int \<Rightarrow> bool \<Rightarrow> TBufferSQL2 \<Rightarrow> TBufferSQL2" where
  "SQLWriteArrayContent wr vname arrsize withsize s =
     (let s1 = on_Stack (SetArray (if withsize then arrsize else - 1)) (PushStack s);
          s2 = (if fCompressLevel s1 > 0
                then SQLWriteArrayCompress wr vname arrsize 0 s1
                else SQLWriteArrayNoncompress wr vname arrsize 0 s1)
      in PopStack s2)"

text \<open>\<open>WriteArray(const Int_t *i, Int_t n)\<close>, through the macro \<open>TBufferSQL2_WriteArray\<close>.\<close>

definition WriteArray_Int :: "int list \<Rightarrow> int \<Rightarrow> TBufferSQL2 \<Rightarrow> TBufferSQL2" where
  "WriteArray_Int i n s = SQLWriteArrayContent SqlWriteBasic_Int i n True s"


subsection \<open>Reading values and arrays\<close>

text \<open>
  \<open>fCurrentData\<close> points to the object data being read. \<open>cur_data\<close> follows the pointer
  (a pointer outside the store counts as null) and \<open>upd_cur\<close> changes the object it
  points to.
\<close>

definition cur_data :: "TBufferSQL2 \<Rightarrow> TSQLObjectData option" where
  "cur_data s =
     (case fCurrentData s of
        None \<Rightarrow> None
      | Some i \<Rightarrow> if i < length (odata s) then Some (odata s ! i) else None)"

definition upd_cur :: "(TSQLObjectData \<Rightarrow> TSQLObjectData) \<Rightarrow> TBufferSQL2 \<Rightarrow> TBufferSQL2" where
  "upd_cur f s =
     (case fCurrentData s of
        None \<Rightarrow> s
      | Some i \<Rightarrow> s\<lparr>odata := (odata s)[i := f (odata s ! i)]\<rparr>)"

text \<open>
  \<open>SqlReadValue(tname)\<close>: the result is the text read (\<open>None\<close> is the null pointer) and
  the new state.
\<close>

definition SqlReadValue :: "string \<Rightarrow> TBufferSQL2 \<Rightarrow> string option \<times> TBufferSQL2" where
  "SqlReadValue tname s =
     (if fErrorFlag s > 0 then (None, s)
      else case cur_data s of
        None \<Rightarrow> (None, (Error ''SqlReadValue'' ''No object data to read from'' s)\<lparr>fErrorFlag := 1\<rparr>)
      | Some d \<Rightarrow>
          if \<not> fIgnoreVerification s \<and> \<not> VerifyDataType d tname
          then (None, s\<lparr>fErrorFlag := 1\<rparr>)
          else (let buf = (case GetValue d of None \<Rightarrow> [] | Some v \<Rightarrow> v);
                    s1 = upd_cur ShiftToNextValue (s\<lparr>fReadBuffer := buf\<rparr>)
                in (Some buf, s1)))"

text \<open>
  \<open>SqlReadBasic(Int_t& value)\<close>: \<open>value\<close> is passed by reference; when \<open>sscanf\<close> converts
  nothing it stays as it was, and it becomes 0 when \<open>SqlReadValue\<close> returns null.
\<close>

definition SqlReadBasic_Int :: "int \<Rightarrow> TBufferSQL2 \<Rightarrow> int \<times> TBufferSQL2" where
  "SqlReadBasic_Int val s =
     (case SqlReadValue sqlio_Int s of
        (Some res, s1) \<Rightarrow> ((case scan_d res of Some (n, _) \<Rightarrow> n | None \<Rightarrow> val), s1)
      | (None, s1) \<Rightarrow> (0, s1))"

text \<open>The macro \<open>SQLReadArrayUncompress\<close>, with \<open>rd\<close> the \<open>SqlReadBasic\<close> of the element
  type.\<close>

function SQLReadArrayUncompress ::
  "('a \<Rightarrow> TBufferSQL2 \<Rightarrow> 'a \<times> TBufferSQL2) \<Rightarrow> 'a list \<Rightarrow> int \<Rightarrow> nat \<Rightarrow> TBufferSQL2
     \<Rightarrow> 'a list \<times> TBufferSQL2" where
  "SQLReadArrayUncompress rd vname arrsize indx s =
     (if int indx < arrsize
      then (case rd (vname ! indx) s of
              (x, s1) \<Rightarrow> SQLReadArrayUncompress rd (vname[indx := x]) arrsize (indx + 1) s1)
      else (vname, s))"
  by pat_completeness auto
termination
  by (relation "measure (\<lambda>(rd, vname, arrsize, indx, s). nat (arrsize - int indx))") auto

declare SQLReadArrayUncompress.simps [simp del]

text \<open>
  The index tag of a run. \<open>has_IndexSepar\<close> is \<open>strstr(name, sqlio::IndexSepar) != 0\<close>.
  \<open>scan_tag\<close> is the pair of \<open>sscanf\<close> calls of \<open>SQLReadArrayCompress\<close>: it yields
  \<open>first\<close> and \<open>last\<close>, each \<open>None\<close> when the conversion did not reach it and the
  variable is left uninitialised.
\<close>

fun has_IndexSepar :: "string \<Rightarrow> bool" where
  "has_IndexSepar (a # b # r) = ((a = CHR ''.'' \<and> b = CHR ''.'') \<or> has_IndexSepar (b # r))"
| "has_IndexSepar _ = False"

definition scan_tag :: "string \<Rightarrow> int option \<times> int option" where
  "scan_tag name =
     (case name of
        [] \<Rightarrow> (None, None)
      | c # r \<Rightarrow>
          if c \<noteq> CHR ''['' then (None, None)
          else if \<not> has_IndexSepar name
          then (case scan_d r of None \<Rightarrow> (None, None) | Some (f, _) \<Rightarrow> (Some f, Some f))
          else (case scan_d r of
                  None \<Rightarrow> (None, None)
                | Some (f, r1) \<Rightarrow>
                    (case r1 of
                       a # b # r2 \<Rightarrow>
                         if a = CHR ''.'' \<and> b = CHR ''.''
                         then (case scan_d r2 of None \<Rightarrow> (Some f, None)
                                               | Some (l, _) \<Rightarrow> (Some f, Some l))
                         else (Some f, None)
                     | _ \<Rightarrow> (Some f, None))))"

text \<open>The inner loop \<open>while(indx<=last) vname[indx++] = vname[first]\<close>.\<close>

function replicate_run :: "'a list \<Rightarrow> nat \<Rightarrow> int \<Rightarrow> nat \<Rightarrow> 'a list \<times> nat" where
  "replicate_run vname first lst indx =
     (if int indx \<le> lst
      then replicate_run (vname[indx := vname ! first]) first lst (indx + 1)
      else (vname, indx))"
  by pat_completeness auto
termination
  by (relation "measure (\<lambda>(vname, first, lst, indx). nat (lst + 1 - int indx))") auto

declare replicate_run.simps [simp del]

lemma replicate_run_indx: "indx \<le> snd (replicate_run vname first lst indx)"
proof (induction vname first lst indx rule: replicate_run.induct)
  case (1 vname first lst indx)
  show ?case
  proof (cases "int indx \<le> lst")
    case True
    then show ?thesis using "1" by (subst replicate_run.simps) simp
  next
    case False
    then show ?thesis by (subst replicate_run.simps) simp
  qed
qed

text \<open>
  The macro \<open>SQLReadArrayCompress\<close>. The result is \<open>None\<close> where the source's behaviour
  is undefined: \<open>fCurrentData\<close> is null or has no current value (the name is null), or
  a variable that \<open>sscanf\<close> left uninitialised is read. The test
  \<open>(first!=indx) || (last<first) || (last>=arrsize)\<close> reads \<open>last\<close> only when
  \<open>first == indx\<close>.
\<close>

function SQLReadArrayCompress ::
  "('a \<Rightarrow> TBufferSQL2 \<Rightarrow> 'a \<times> TBufferSQL2) \<Rightarrow> 'a list \<Rightarrow> int \<Rightarrow> nat \<Rightarrow> TBufferSQL2
     \<Rightarrow> ('a list \<times> TBufferSQL2) option" where
  "SQLReadArrayCompress rd vname arrsize indx s =
     (if int indx < arrsize
      then (case cur_data s of
              None \<Rightarrow> None
            | Some d \<Rightarrow>
               (case GetBlobPrefixName d of
                  None \<Rightarrow> None
                | Some name \<Rightarrow>
                   (case fst (scan_tag name) of
                      None \<Rightarrow> None
                    | Some first \<Rightarrow>
                        if first \<noteq> int indx
                        then Some (vname, (Error ''SQLReadArrayCompress''
                                             (''Error reading array content '' @ name) s)
                                          \<lparr>fErrorFlag := 1\<rparr>)
                        else (case snd (scan_tag name) of
                                None \<Rightarrow> None
                              | Some lst \<Rightarrow>
                                  if lst < first \<or> lst \<ge> arrsize
                                  then Some (vname, (Error ''SQLReadArrayCompress''
                                                       (''Error reading array content '' @ name) s)
                                                    \<lparr>fErrorFlag := 1\<rparr>)
                                  else (case rd (vname ! indx) s of
                                          (x, s1) \<Rightarrow>
                                            (case replicate_run (vname[indx := x]) indx lst (indx + 1) of
                                               (vname', indx') \<Rightarrow>
                                                 SQLReadArrayCompress rd vname' arrsize indx' s1))))))
      else Some (vname, s))"
  by pat_completeness auto
termination
proof (relation "measure (\<lambda>(rd, vname, arrsize, indx, s). nat (arrsize - int indx))", goal_cases)
  case 1
  show ?case by simp
next
  case (2 rd vname arrsize indx s d name first lst x s1 vname' indx')
  have "indx + 1 \<le> snd (replicate_run (vname[indx := x]) indx lst (indx + 1))"
    by (rule replicate_run_indx)
  moreover have "snd (replicate_run (vname[indx := x]) indx lst (indx + 1)) = indx'"
    using 2 by (metis snd_conv)
  ultimately show ?case using 2 by simp
qed

declare SQLReadArrayCompress.simps [simp del]

text \<open>
  The macro \<open>SQLReadArrayContent\<close>: free-form data is read run by run, column data value
  by value. \<open>fCurrentData->IsBlobData()\<close> dereferences \<open>fCurrentData\<close> (\<open>None\<close> when it is
  null).
\<close>

definition SQLReadArrayContent ::
  "('a \<Rightarrow> TBufferSQL2 \<Rightarrow> 'a \<times> TBufferSQL2) \<Rightarrow> 'a list \<Rightarrow> int \<Rightarrow> bool \<Rightarrow> TBufferSQL2
     \<Rightarrow> ('a list \<times> TBufferSQL2) option" where
  "SQLReadArrayContent rd vname arrsize withsize s =
     (let s1 = on_Stack (SetArray (if withsize then arrsize else - 1)) (PushStack s) in
      case cur_data s1 of
        None \<Rightarrow> None
      | Some d \<Rightarrow>
          if IsBlobData d
          then (case SQLReadArrayCompress rd vname arrsize 0 s1 of
                  None \<Rightarrow> None
                | Some (v, s2) \<Rightarrow> Some (v, PopStack s2))
          else (case SQLReadArrayUncompress rd vname arrsize 0 s1 of
                  (v, s2) \<Rightarrow> Some (v, PopStack s2)))"

text \<open>
  Modelled from the spec: how the Value children of an Array node are persisted as
  free-form values. A run of more than one element is tagged \<open>[first..last]\<close>, a single
  element \<open>[first]\<close>; the cell keeps the text and the type marker of the node.
\<close>

definition array_tag :: "int \<Rightarrow> int \<Rightarrow> string" where
  "array_tag index cnt =
     (if cnt > 1
      then ''['' @ snprintf_d index @ sqlio_IndexSepar @ snprintf_d (index + cnt - 1) @ '']''
      else ''['' @ snprintf_d index @ '']'')"

definition value_cell :: "TSQLStructure \<Rightarrow> sql_cell" where
  "value_cell n =
     \<lparr>BlobPrefixName = array_tag (fArrayIndex n) (fRepeatCnt n),
      BlobTypeName = fTypeName n, LocatedValue = Some (fValue n)\<rparr>"

text \<open>The Value children of an Array node, in the order they were added.\<close>

definition array_vals :: "TBufferSQL2 \<Rightarrow> nat \<Rightarrow> TSQLStructure list" where
  "array_vals s a = map (\<lambda>c. nodes s ! c) (fChilds (nodes s ! a))"

definition array_cells :: "TBufferSQL2 \<Rightarrow> nat \<Rightarrow> sql_cell list" where
  "array_cells s a = map value_cell (array_vals s a)"

text \<open>The runs an Array node holds: text, start index and length of each Value child.\<close>

definition array_runs :: "TBufferSQL2 \<Rightarrow> nat \<Rightarrow> (string \<times> int \<times> int) list" where
  "array_runs s a = map (\<lambda>n. (fValue n, fArrayIndex n, fRepeatCnt n)) (array_vals s a)"

text \<open>
  The runs of an array as the specification describes them: each maximal span of equal
  consecutive values, with the value, the index where the span starts and its length.
\<close>

function runs_from :: "nat \<Rightarrow> 'a list \<Rightarrow> ('a \<times> nat \<times> nat) list" where
  "runs_from i [] = []"
| "runs_from i (x # xs) =
     (x, i, Suc (length (takeWhile (\<lambda>y. y = x) xs)))
       # runs_from (i + Suc (length (takeWhile (\<lambda>y. y = x) xs))) (dropWhile (\<lambda>y. y = x) xs)"
  by pat_completeness auto
termination
  by (relation "measure (\<lambda>(i, xs). length xs)") (auto simp: length_dropWhile_le less_Suc_eq_le)

definition maximal_runs :: "'a list \<Rightarrow> ('a \<times> nat \<times> nat) list" where
  "maximal_runs v = runs_from 0 v"

subsection \<open>Writing objects\<close>

text \<open>
  Modelled from the spec: the \<open>TExMap\<close> behind \<open>fObjMap\<close>, the Object Identity Registry.
  \<open>GetValue\<close> yields 0 for a key that is not registered; \<open>Add\<close> registers a key once
  and leaves a key that is already there as it is. The hash passed with the key is a
  function of the key and is left out.
\<close>

definition TExMap_GetValue :: "(int \<rightharpoonup> int) \<Rightarrow> int \<Rightarrow> int" where
  "TExMap_GetValue m key = (case m key of None \<Rightarrow> 0 | Some v \<Rightarrow> v)"

definition TExMap_Add :: "(int \<rightharpoonup> int) \<Rightarrow> int \<Rightarrow> int \<Rightarrow> (int \<rightharpoonup> int)" where
  "TExMap_Add m key v = (case m key of None \<Rightarrow> m(key \<mapsto> v) | Some _ \<Rightarrow> m)"

text \<open>
  \<open>SqlWriteObject\<close> is declared to return \<open>Int_t\<close> and returns the \<open>Long64_t\<close> object
  id: the conversion (\<open>Int_t_of_Long64\<close>) keeps the low 32 bits.
\<close>

text \<open>
  The describe-callback of a class (\<open>TClass::Streamer\<close>, or a \<open>TMemberStreamer\<close>) is code
  of the reflection system that calls back into the buffer, once per member. It is
  modelled by the calls it makes: for an object at an address, the list of buffer
  operations in the order of the calls. An address is a number, 0 the null pointer; a
  class pointer is \<open>Some\<close> class or null.
\<close>

datatype waction =
    WriteObjectClass int "TClass option"
  | WriteInt int
  | WriteArray "int list" int
  | WriteCharP string

type_synonym describe = "TClass \<Rightarrow> int \<Rightarrow> waction list"
type_synonym TMemberStreamer = "int \<Rightarrow> int \<Rightarrow> waction list"

text \<open>
  \<open>SqlWriteObject(obj, cl, streamer, streamer_index)\<close> and the execution of the calls a
  callback makes. A callback may write further objects, and nothing in the buffer bounds
  the nesting, so the model carries fuel: one unit is used for each callback that is
  entered, and \<open>None\<close> means that the fuel did not suffice. An object that is null or
  already registered is written without entering a callback, whatever the fuel.
\<close>

fun SqlWriteObject ::
  "nat \<Rightarrow> describe \<Rightarrow> int \<Rightarrow> TClass option \<Rightarrow> TMemberStreamer option \<Rightarrow> int \<Rightarrow> TBufferSQL2
     \<Rightarrow> (int \<times> TBufferSQL2) option"
and run_streamer :: "nat \<Rightarrow> describe \<Rightarrow> waction list \<Rightarrow> TBufferSQL2 \<Rightarrow> TBufferSQL2 option"
where
  "SqlWriteObject fuel Streamer obj0 cl streamer streamer_index s =
     (let s1 = PushStack s;
          obj = (if cl = None then 0 else obj0);
          objid = (if obj = 0 then 0
                   else (case fObjMap s1 of
                           None \<Rightarrow> - 1
                         | Some m \<Rightarrow>
                             (let v = TExMap_GetValue m obj
                              in if v > 0 then fFirstObjId s1 + v - 1 else - 1)))
      in if objid \<ge> 0
         then Some (Int_t_of_Long64 objid, PopStack (on_Stack (SetObjectPointer objid) s1))
         else (let objid' = fObjIdCounter s1;
                   s2 = on_Stack (SetObjectRef objid' cl) (s1\<lparr>fObjIdCounter := objid' + 1\<rparr>);
                   m = (case fObjMap s2 of None \<Rightarrow> Map.empty | Some m \<Rightarrow> m);
                   s3 = s2\<lparr>fObjMap := Some (if TExMap_GetValue m obj = 0
                                              then TExMap_Add m obj (objid' - fFirstObjId s2 + 1)
                                              else m)\<rparr>;
                   calls = (case streamer of
                              Some member \<Rightarrow> member obj streamer_index
                            | None \<Rightarrow> (case cl of None \<Rightarrow> [] | Some c \<Rightarrow> Streamer c obj))
               in case fuel of
                    0 \<Rightarrow> None
                  | Suc fuel' \<Rightarrow>
                      (case run_streamer fuel' Streamer calls s3 of
                         None \<Rightarrow> None
                       | Some s4 \<Rightarrow> Some (Int_t_of_Long64 objid', PopStack s4))))"
| "run_streamer fuel Streamer [] s = Some s"
| "run_streamer fuel Streamer (WriteObjectClass actualObjStart actualClass # calls) s =
     (case SqlWriteObject fuel Streamer actualObjStart actualClass None 0 s of
        None \<Rightarrow> None
      | Some (_, s1) \<Rightarrow> run_streamer fuel Streamer calls s1)"
| "run_streamer fuel Streamer (WriteInt i # calls) s =
     run_streamer fuel Streamer calls (SqlWriteBasic_Int i s)"
| "run_streamer fuel Streamer (WriteArray i n # calls) s =
     run_streamer fuel Streamer calls (WriteArray_Int i n s)"
| "run_streamer fuel Streamer (WriteCharP c # calls) s =
     run_streamer fuel Streamer calls (SqlWriteValue c sqlio_CharStar s)"

declare SqlWriteObject.simps [simp del]

text \<open>\<open>SqlWriteAny(obj, cl, objid)\<close> starts a write pass: it clears the error flag and the
  root of the structure tree, and makes \<open>objid\<close> the first id of the pass.\<close>

definition SqlWriteAny_begin :: "int \<Rightarrow> TBufferSQL2 \<Rightarrow> TBufferSQL2" where
  "SqlWriteAny_begin objid s =
     s\<lparr>fErrorFlag := 0, fStructure := None, fFirstObjId := objid, fObjIdCounter := objid\<rparr>"

definition SqlWriteAny ::
  "nat \<Rightarrow> describe \<Rightarrow> int \<Rightarrow> TClass option \<Rightarrow> int \<Rightarrow> TBufferSQL2 \<Rightarrow> TBufferSQL2 option" where
  "SqlWriteAny fuel Streamer obj cl objid s =
     (case SqlWriteObject fuel Streamer obj cl None 0 (SqlWriteAny_begin objid s) of
        None \<Rightarrow> None
      | Some (_, s1) \<Rightarrow> Some s1)"

section \<open>Properties of the array codec\<close>

lemma has_IndexSepar_append: "has_IndexSepar (a @ CHR ''.'' # CHR ''.'' # b)"
  by (induction a rule: has_IndexSepar.induct) auto

lemma no_dot_no_IndexSepar: "CHR ''.'' \<notin> set str \<Longrightarrow> \<not> has_IndexSepar str"
  by (induction str rule: has_IndexSepar.induct) auto

lemma snprintf_d_chars: "c \<in> set (snprintf_d i) \<Longrightarrow> is_digit c \<or> c = CHR ''-''"
  using dec_digits_all_digits by (auto simp: snprintf_d_def split: if_splits)

lemma snprintf_d_no_dot: "CHR ''.'' \<notin> set (snprintf_d i)"
  using snprintf_d_chars [of "CHR ''.''" i] by (auto simp: is_digit_def)

lemma scan_tag_array_tag:
  assumes "is_Int_t i" and "is_Int_t (i + k - 1)"
  shows "scan_tag (array_tag i k) = (Some i, Some (if k > 1 then i + k - 1 else i))"
proof (cases "k > 1")
  case True
  have a: "scan_d (snprintf_d i @ ''..'' @ snprintf_d (i + k - 1) @ '']'') = Some (i, ''..'' @ snprintf_d (i + k - 1) @ '']'')"
    by (rule scan_d_snprintf_d [OF assms(1)]) (simp add: is_digit_def)
  have b: "scan_d (snprintf_d (i + k - 1) @ '']'') = Some (i + k - 1, '']'')"
    by (rule scan_d_snprintf_d [OF assms(2)]) (simp add: is_digit_def)
  have c: "has_IndexSepar (CHR ''['' # snprintf_d i @ ''..'' @ snprintf_d (i + k - 1) @ '']'')"
    using has_IndexSepar_append [of "CHR ''['' # snprintf_d i" "snprintf_d (i + k - 1) @ '']''"] by simp
  show ?thesis
    using True a b c by (simp add: scan_tag_def array_tag_def sqlio_IndexSepar_def)
next
  case False
  have a: "scan_d (snprintf_d i @ '']'') = Some (i, '']'')"
    by (rule scan_d_snprintf_d [OF assms(1)]) (simp add: is_digit_def)
  have c: "\<not> has_IndexSepar (CHR ''['' # snprintf_d i @ '']'')"
    by (rule no_dot_no_IndexSepar) (simp add: snprintf_d_no_dot)
  show ?thesis
    using False a c by (simp add: scan_tag_def array_tag_def)
qed


definition arr_wf :: "TBufferSQL2 \<Rightarrow> nat \<Rightarrow> bool" where
  "arr_wf s p = (fStk s = Some p \<and> p < length (nodes s) \<and>
                 (\<forall>c \<in> set (fChilds (nodes s ! p)). c < length (nodes s) \<and> c \<noteq> p))"

definition run_node :: "nat \<Rightarrow> string \<Rightarrow> string \<Rightarrow> int \<Rightarrow> int \<Rightarrow> TSQLStructure" where
  "run_node p txt tn i k =
     new_TSQLStructure\<lparr>fParent := Some p, fType := kSqlValue, fValue := txt, fTypeName := tn,
                       fArrayIndex := i, fRepeatCnt := k\<rparr>"

lemma emit_run:
  assumes "arr_wf s p"
  shows "arr_wf (Stack_ChildArrayIndex i k (SqlWriteValue txt tn s)) p
       \<and> array_vals (Stack_ChildArrayIndex i k (SqlWriteValue txt tn s)) p
           = array_vals s p @ [run_node p txt tn i k]
       \<and> length (nodes (Stack_ChildArrayIndex i k (SqlWriteValue txt tn s))) = Suc (length (nodes s))"
proof -
  obtain ns where ns: "ns = nodes s" by simp
  let ?a = "length ns"
  let ?s1 = "SqlWriteValue txt tn s"
  let ?nv = "new_TSQLStructure\<lparr>fParent := Some p, fType := kSqlValue, fValue := txt, fTypeName := tn\<rparr>"
  have wf: "fStk s = Some p" "p < ?a" "\<forall>c \<in> set (fChilds (ns ! p)). c < ?a \<and> c \<noteq> p"
    using assms by (simp_all add: arr_wf_def ns)
  have n1: "nodes ?s1 = ns[p := (ns ! p)\<lparr>fChilds := fChilds (ns ! p) @ [?a]\<rparr>] @ [?nv]"
    using wf(1) by (simp add: SqlWriteValue_def Stack_AddValue_def ns)
  have st1: "fStk ?s1 = Some p"
    using wf(1) by (simp add: SqlWriteValue_def Stack_AddValue_def)
  have ch1: "fChilds (nodes ?s1 ! p) = fChilds (ns ! p) @ [?a]"
    unfolding n1 using wf(2) by (simp add: nth_append)
  have la: "nodes ?s1 ! ?a = ?nv"
    unfolding n1 by (simp add: nth_append)
  have n2: "nodes (Stack_ChildArrayIndex i k ?s1) = (nodes ?s1)[?a := run_node p txt tn i k]"
    using st1 ch1 la
    by (simp add: Stack_ChildArrayIndex_def Let_def run_node_def new_TSQLStructure_def)
  have st2: "fStk (Stack_ChildArrayIndex i k ?s1) = Some p"
    using st1 by (simp add: Stack_ChildArrayIndex_def Let_def)
  have len: "length (nodes (Stack_ChildArrayIndex i k ?s1)) = Suc ?a"
    unfolding n2 n1 by simp
  have np: "nodes (Stack_ChildArrayIndex i k ?s1) ! p = (ns ! p)\<lparr>fChilds := fChilds (ns ! p) @ [?a]\<rparr>"
    unfolding n2 n1 using wf(2) by (simp add: nth_append)
  have old: "\<And>c. c \<in> set (fChilds (ns ! p)) \<Longrightarrow> nodes (Stack_ChildArrayIndex i k ?s1) ! c = ns ! c"
    unfolding n2 n1 using wf(2,3) by (auto simp: nth_append)
  have new: "nodes (Stack_ChildArrayIndex i k ?s1) ! ?a = run_node p txt tn i k"
    unfolding n2 n1 by simp
  have vals: "array_vals (Stack_ChildArrayIndex i k ?s1) p = array_vals s p @ [run_node p txt tn i k]"
    unfolding array_vals_def np using old new by (simp add: ns)
  have wf2: "arr_wf (Stack_ChildArrayIndex i k ?s1) p"
    unfolding arr_wf_def np len using st2 wf(2,3) by auto
  show ?thesis using vals wf2 len by (simp add: ns)
qed

lemma run_end_takeWhile:
  "arrsize = int (length v) \<Longrightarrow> j \<le> length v \<Longrightarrow>
   run_end v arrsize cur j = j + length (takeWhile (\<lambda>y. y = v ! cur) (drop j v))"
proof (induction v arrsize cur j rule: run_end.induct)
  case (1 vname arrsize cur indx)
  show ?case
  proof (cases "int indx < arrsize \<and> vname ! indx = vname ! cur")
    case True
    then have lt: "indx < length vname" using "1.prems" by simp
    have d: "drop indx vname = vname ! indx # drop (Suc indx) vname"
      using lt by (simp add: Cons_nth_drop_Suc)
    have "run_end vname arrsize cur (indx + 1)
            = indx + 1 + length (takeWhile (\<lambda>y. y = vname ! cur) (drop (indx + 1) vname))"
      using "1.IH" [OF True] "1.prems" lt by simp
    then show ?thesis
      using True d by (subst run_end.simps) simp
  next
    case False
    then have "takeWhile (\<lambda>y. y = vname ! cur) (drop indx vname) = []"
      using "1.prems" by (cases "indx < length vname") (auto simp: Cons_nth_drop_Suc [symmetric])
    then show ?thesis
      using False by (subst run_end.simps) auto
  qed
qed

lemma SQLWriteArrayNoncompress_vals:
  "(\<forall>x s. wr x s = SqlWriteValue (fmt x) tn s) \<Longrightarrow>
   arr_wf s p \<Longrightarrow> arrsize = int (length v) \<Longrightarrow> indx \<le> length v \<Longrightarrow>
     arr_wf (SQLWriteArrayNoncompress wr v arrsize indx s) p
   \<and> array_vals (SQLWriteArrayNoncompress wr v arrsize indx s) p
       = array_vals s p @ map (\<lambda>j. run_node p (fmt (v ! j)) tn (int j) 1) [indx..<length v]
   \<and> length (nodes s) \<le> length (nodes (SQLWriteArrayNoncompress wr v arrsize indx s))"
proof (induction wr v arrsize indx s rule: SQLWriteArrayNoncompress.induct)
  case (1 wr vname arrsize indx s)
  show ?case
  proof (cases "int indx < arrsize")
    case False
    then have "indx = length vname" using "1.prems" by simp
    then show ?thesis using False "1.prems" by (subst (1 2 3) SQLWriteArrayNoncompress.simps) simp
  next
    case True
    let ?s1 = "Stack_ChildArrayIndex (int indx) 1 (wr (vname ! indx) s)"
    have lt: "indx < length vname" using True "1.prems" by simp
    have w: "wr (vname ! indx) s = SqlWriteValue (fmt (vname ! indx)) tn s"
      using "1.prems"(1) by simp
    have e: "arr_wf ?s1 p \<and> array_vals ?s1 p = array_vals s p @ [run_node p (fmt (vname ! indx)) tn (int indx) 1]
             \<and> length (nodes ?s1) = Suc (length (nodes s))"
      unfolding w by (rule emit_run [OF "1.prems"(2)])
    have ih: "arr_wf (SQLWriteArrayNoncompress wr vname arrsize (indx + 1) ?s1) p
       \<and> array_vals (SQLWriteArrayNoncompress wr vname arrsize (indx + 1) ?s1) p
           = array_vals ?s1 p @ map (\<lambda>j. run_node p (fmt (vname ! j)) tn (int j) 1) [indx + 1..<length vname]
       \<and> length (nodes ?s1) \<le> length (nodes (SQLWriteArrayNoncompress wr vname arrsize (indx + 1) ?s1))"
      using "1.IH" [OF True "1.prems"(1) _ "1.prems"(3)] e lt by simp
    have un: "SQLWriteArrayNoncompress wr vname arrsize indx s
              = SQLWriteArrayNoncompress wr vname arrsize (indx + 1) ?s1"
      using True by (subst SQLWriteArrayNoncompress.simps) simp
    have up: "[indx..<length vname] = indx # [indx + 1..<length vname]"
      using lt by (simp add: upt_conv_Cons)
    show ?thesis
      unfolding un up using ih e by simp
  qed
qed

lemma runs_from_drop:
  assumes "indx < length v"
  shows "runs_from indx (drop indx v) =
           (v ! indx, indx, Suc (length (takeWhile (\<lambda>y. y = v ! indx) (drop (Suc indx) v))))
             # runs_from (indx + Suc (length (takeWhile (\<lambda>y. y = v ! indx) (drop (Suc indx) v))))
                 (drop (indx + Suc (length (takeWhile (\<lambda>y. y = v ! indx) (drop (Suc indx) v)))) v)"
proof -
  have d: "drop indx v = v ! indx # drop (Suc indx) v"
    using assms by (simp add: Cons_nth_drop_Suc)
  have dd: "dropWhile (\<lambda>y. y = v ! indx) (drop (Suc indx) v)
            = drop (indx + Suc (length (takeWhile (\<lambda>y. y = v ! indx) (drop (Suc indx) v)))) v"
    by (simp add: dropWhile_eq_drop add.commute)
  show ?thesis
    unfolding d by (simp add: dd)
qed

lemma SQLWriteArrayCompress_vals:
  "(\<forall>x s. wr x s = SqlWriteValue (fmt x) tn s) \<Longrightarrow>
   arr_wf s p \<Longrightarrow> arrsize = int (length v) \<Longrightarrow> indx \<le> length v \<Longrightarrow>
     arr_wf (SQLWriteArrayCompress wr v arrsize indx s) p
   \<and> array_vals (SQLWriteArrayCompress wr v arrsize indx s) p
       = array_vals s p @ map (\<lambda>(x, i, k). run_node p (fmt x) tn (int i) (int k))
                              (runs_from indx (drop indx v))
   \<and> length (nodes s) \<le> length (nodes (SQLWriteArrayCompress wr v arrsize indx s))"
proof (induction wr v arrsize indx s rule: SQLWriteArrayCompress.induct)
  case (1 wr vname arrsize indx s)
  show ?case
  proof (cases "int indx < arrsize")
    case False
    then have "indx = length vname" using "1.prems" by simp
    then show ?thesis using False "1.prems" by (subst (1 2 3) SQLWriteArrayCompress.simps) simp
  next
    case True
    define k where "k = length (takeWhile (\<lambda>y. y = vname ! indx) (drop (Suc indx) vname))"
    define indx' where "indx' = run_end vname arrsize indx (indx + 1)"
    let ?s1 = "Stack_ChildArrayIndex (int indx) (int indx' - int indx) (wr (vname ! indx) s)"
    have lt: "indx < length vname" using True "1.prems" by simp
    have i': "indx' = indx + Suc k"
      unfolding indx'_def k_def using run_end_takeWhile [OF "1.prems"(3), of "indx + 1" indx] lt by simp
    have kle: "indx + Suc k \<le> length vname"
    proof -
      have "k \<le> length (drop (Suc indx) vname)" unfolding k_def by (rule length_takeWhile_le)
      then show ?thesis using lt by simp
    qed
    have w: "wr (vname ! indx) s = SqlWriteValue (fmt (vname ! indx)) tn s"
      using "1.prems"(1) by simp
    have cnt: "int indx' - int indx = int (Suc k)" using i' by simp
    have e: "arr_wf ?s1 p \<and> array_vals ?s1 p = array_vals s p @ [run_node p (fmt (vname ! indx)) tn (int indx) (int (Suc k))]
             \<and> length (nodes ?s1) = Suc (length (nodes s))"
      unfolding w cnt by (rule emit_run [OF "1.prems"(2)])
    have ih: "arr_wf (SQLWriteArrayCompress wr vname arrsize indx' ?s1) p
       \<and> array_vals (SQLWriteArrayCompress wr vname arrsize indx' ?s1) p
           = array_vals ?s1 p @ map (\<lambda>(x, i, k). run_node p (fmt x) tn (int i) (int k))
                                   (runs_from indx' (drop indx' vname))
       \<and> length (nodes ?s1) \<le> length (nodes (SQLWriteArrayCompress wr vname arrsize indx' ?s1))"
      using "1.IH" [OF True refl indx'_def "1.prems"(1) _ "1.prems"(3)] e kle i' by simp
    have un: "SQLWriteArrayCompress wr vname arrsize indx s
              = SQLWriteArrayCompress wr vname arrsize indx' ?s1"
      using True by (subst SQLWriteArrayCompress.simps) (simp add: indx'_def Let_def)
    have rf: "runs_from indx (drop indx vname) =
                (vname ! indx, indx, Suc k) # runs_from indx' (drop indx' vname)"
      using runs_from_drop [OF lt] unfolding k_def [symmetric] i' by simp
    show ?thesis
      unfolding un rf using ih e by simp
  qed
qed

lemma SQLWriteArrayContent_vals:
  assumes wr: "\<forall>x s. wr x s = SqlWriteValue (fmt x) tn s"
    and n: "arrsize = int (length v)"
  shows "array_vals (SQLWriteArrayContent wr v arrsize withsize s) (length (nodes s)) =
           (if fCompressLevel s > 0
            then map (\<lambda>(x, i, k). run_node (length (nodes s)) (fmt x) tn (int i) (int k)) (runs_from 0 v)
            else map (\<lambda>j. run_node (length (nodes s)) (fmt (v ! j)) tn (int j) 1) [0..<length v])"
proof -
  let ?a = "length (nodes s)"
  let ?s1 = "on_Stack (SetArray (if withsize then arrsize else - 1)) (PushStack s)"
  have wf: "arr_wf ?s1 ?a"
    by (auto simp: arr_wf_def on_Stack_def PushStack_def Let_def SetArray_def new_TSQLStructure_def
             nth_append split: option.splits)
  have emp: "array_vals ?s1 ?a = []"
    by (auto simp: array_vals_def on_Stack_def PushStack_def Let_def SetArray_def new_TSQLStructure_def
             nth_append split: option.splits)
  have cl: "fCompressLevel ?s1 = fCompressLevel s"
    by (auto simp: on_Stack_def PushStack_def Let_def split: option.splits)
  have pop: "\<And>t. array_vals (PopStack t) ?a = array_vals t ?a"
    by (auto simp: array_vals_def PopStack_def split: option.splits)
  show ?thesis
  proof (cases "fCompressLevel s > 0")
    case True
    then show ?thesis
      using SQLWriteArrayCompress_vals [OF wr wf n, of 0] emp cl
      by (simp add: SQLWriteArrayContent_def Let_def pop)
  next
    case False
    then show ?thesis
      using SQLWriteArrayNoncompress_vals [OF wr wf n, of 0] emp cl
      by (simp add: SQLWriteArrayContent_def Let_def pop)
  qed
qed

lemma SqlReadBasic_cell:
  assumes rd: "\<forall>old r. rd old r = (case SqlReadValue tn r of
                                      (Some res, r1) \<Rightarrow> (conv old res, r1)
                                    | (None, r1) \<Rightarrow> (zero, r1))"
    and "\<not> fErrorFlag r > 0"
    and "cur_data r = Some d"
    and "fCells d = c # rest"
    and "LocatedValue c = Some txt"
    and "fIgnoreVerification r \<or> \<not> IsBlobData d \<or> BlobTypeName c = tn"
  shows "\<exists>r'. rd old r = (conv old txt, r') \<and> cur_data r' = Some (d\<lparr>fCells := rest\<rparr>)
            \<and> fErrorFlag r' = fErrorFlag r \<and> fIgnoreVerification r' = fIgnoreVerification r
            \<and> nodes r' = nodes r \<and> fStk r' = fStk r \<and> diag r' = diag r"
proof -
  have v: "\<not> (\<not> fIgnoreVerification r \<and> \<not> VerifyDataType d tn)"
    using assms(4,6) by (auto simp: VerifyDataType_def)
  obtain i where i: "fCurrentData r = Some i" "i < length (odata r)" "odata r ! i = d"
    using assms(3) by (auto simp: cur_data_def split: option.splits if_splits)
  have rv: "SqlReadValue tn r =
              (Some txt, upd_cur ShiftToNextValue (r\<lparr>fReadBuffer := txt\<rparr>))"
    using assms(2,3,4,5) v by (simp add: SqlReadValue_def GetValue_def Let_def)
  have cd: "cur_data (upd_cur ShiftToNextValue (r\<lparr>fReadBuffer := txt\<rparr>)) = Some (d\<lparr>fCells := rest\<rparr>)"
    using i assms(4) by (simp add: cur_data_def upd_cur_def ShiftToNextValue_def)
  have "rd old r = (conv old txt, upd_cur ShiftToNextValue (r\<lparr>fReadBuffer := txt\<rparr>))"
    using rd rv by simp
  then show ?thesis
    using cd i by (simp add: upd_cur_def)
qed

lemma Int_t_text_roundtrip:
  "is_Int_t x \<Longrightarrow> (case scan_d (snprintf_d x) of Some (n, _) \<Rightarrow> n | None \<Rightarrow> old) = x"
  using scan_d_snprintf_d [of x "[]"] by simp

fun covers :: "('a \<times> nat \<times> nat) list \<Rightarrow> nat \<Rightarrow> 'a list \<Rightarrow> bool" where
  "covers [] i v = (i = length v)"
| "covers ((x, st, k) # rs) i v =
     (st = i \<and> 1 \<le> k \<and> i + k \<le> length v \<and> (\<forall>j<k. v ! (i + j) = x) \<and> covers rs (i + k) v)"

definition run_cell :: "string \<Rightarrow> ('a \<Rightarrow> string) \<Rightarrow> 'a \<times> nat \<times> nat \<Rightarrow> sql_cell" where
  "run_cell tn fmt run =
     (case run of (x, i, k) \<Rightarrow>
        \<lparr>BlobPrefixName = array_tag (int i) (int k), BlobTypeName = tn, LocatedValue = Some (fmt x)\<rparr>)"

lemma covers_runs_from:
  "length pre = i \<Longrightarrow> covers (runs_from i xs) i (pre @ xs)"
proof (induction i xs arbitrary: pre rule: runs_from.induct)
  case (1 i)
  then show ?case by simp
next
  case (2 i x xs)
  let ?tw = "takeWhile (\<lambda>y. y = x) xs"
  let ?k = "Suc (length ?tw)"
  have tw: "\<And>j. j < length ?tw \<Longrightarrow> xs ! j = x"
  proof -
    fix j assume j: "j < length ?tw"
    have "?tw ! j = xs ! j" using j by (rule takeWhile_nth)
    moreover have "?tw ! j \<in> set ?tw" using j by simp
    ultimately show "xs ! j = x" by (metis (mono_tags, lifting) set_takeWhileD)
  qed
  have all: "\<forall>j<?k. (pre @ x # xs) ! (i + j) = x"
  proof (intro allI impI)
    fix j assume "j < ?k"
    then show "(pre @ x # xs) ! (i + j) = x"
      using "2.prems" tw by (cases j) (auto simp: nth_append)
  qed
  have le: "i + ?k \<le> length (pre @ x # xs)"
    using "2.prems" length_takeWhile_le [of "\<lambda>y. y = x" xs] by simp
  have "covers (runs_from (i + ?k) (dropWhile (\<lambda>y. y = x) xs)) (i + ?k)
               ((pre @ x # ?tw) @ dropWhile (\<lambda>y. y = x) xs)"
    by (rule "2.IH") (use "2.prems" in simp)
  then have rec: "covers (runs_from (i + ?k) (dropWhile (\<lambda>y. y = x) xs)) (i + ?k) (pre @ x # xs)"
    by simp
  show ?case
    using all le rec by simp
qed

lemma covers_singletons:
  "indx \<le> length v \<Longrightarrow> covers (map (\<lambda>j. (v ! j, j, 1)) [indx..<length v]) indx v"
proof (induction "length v - indx" arbitrary: indx)
  case 0
  then show ?case by simp
next
  case (Suc m)
  then have lt: "indx < length v" by simp
  have "covers (map (\<lambda>j. (v ! j, j, 1)) [Suc indx..<length v]) (Suc indx) v"
    using Suc lt by (intro Suc.hyps(1)) simp_all
  then show ?case
    using lt by (simp add: upt_conv_Cons)
qed

lemma replicate_run_spec:
  "first < indx \<Longrightarrow>
   replicate_run v first lst indx =
     (map (\<lambda>i. if indx \<le> i \<and> int i \<le> lst then v ! first else v ! i) [0..<length v],
      max indx (nat (lst + 1)))"
proof (induction v first lst indx rule: replicate_run.induct)
  case (1 vname first lst indx)
  show ?case
  proof (cases "int indx \<le> lst")
    case False
    have "map (\<lambda>i. if indx \<le> i \<and> int i \<le> lst then vname ! first else vname ! i) [0..<length vname] = vname"
      using False by (intro nth_equalityI) auto
    moreover have "max indx (nat (lst + 1)) = indx" using False by simp
    ultimately show ?thesis using False by (subst replicate_run.simps) simp
  next
    case True
    have f: "first < indx + 1" using "1.prems" by simp
    have eq: "map (\<lambda>i. if indx + 1 \<le> i \<and> int i \<le> lst then vname[indx := vname ! first] ! first
                        else vname[indx := vname ! first] ! i) [0..<length (vname[indx := vname ! first])]
            = map (\<lambda>i. if indx \<le> i \<and> int i \<le> lst then vname ! first else vname ! i) [0..<length vname]"
      using True "1.prems" by (intro nth_equalityI) (auto simp: nth_list_update)
    have mx: "max (indx + 1) (nat (lst + 1)) = max indx (nat (lst + 1))" using True by simp
    show ?thesis
      using "1.IH" [OF True f] True
      by (subst replicate_run.simps) (simp only: eq mx if_True)
  qed
qed


lemma SQLReadArrayCompress_first_mismatch:
  assumes "int indx < arrsize"
    and "cur_data s = Some d"
    and "GetBlobPrefixName d = Some name"
    and "fst (scan_tag name) = Some first"
    and "first \<noteq> int indx"
  shows "SQLReadArrayCompress rd vname arrsize indx s =
           Some (vname, (Error ''SQLReadArrayCompress''
                           (''Error reading array content '' @ name) s)\<lparr>fErrorFlag := 1\<rparr>)"
  using assms by (subst SQLReadArrayCompress.simps) simp

lemma scan_tag_Int_t: "scan_tag ''[4294967296..1]'' = (Some 0, Some 1)"
  by (simp add: scan_tag_def scan_d_def scan_number_def isspace_def is_digit_def digit_val_def
        Long64_clamp_def Int_t_of_Long64_def Let_def)

lemma SQLReadArrayCompress_unfold:
  assumes "int indx < arrsize"
    and "cur_data s = Some d"
    and "GetBlobPrefixName d = Some name"
    and "scan_tag name = (Some first, Some lst)"
  shows "(first \<noteq> int indx \<or> lst < first \<or> arrsize \<le> lst \<longrightarrow>
            SQLReadArrayCompress rd vname arrsize indx s =
              Some (vname, (Error ''SQLReadArrayCompress''
                              (''Error reading array content '' @ name) s)\<lparr>fErrorFlag := 1\<rparr>))
       \<and> (first = int indx \<and> first \<le> lst \<and> lst < arrsize \<longrightarrow>
            SQLReadArrayCompress rd vname arrsize indx s =
              SQLReadArrayCompress rd
                (map (\<lambda>i. if indx \<le> i \<and> int i \<le> lst then fst (rd (vname ! indx) s) else vname ! i)
                     [0..<length vname])
                arrsize (nat lst + 1) (snd (rd (vname ! indx) s)))"
proof (intro conjI impI)
  assume "first \<noteq> int indx \<or> lst < first \<or> arrsize \<le> lst"
  then show "SQLReadArrayCompress rd vname arrsize indx s =
              Some (vname, (Error ''SQLReadArrayCompress''
                              (''Error reading array content '' @ name) s)\<lparr>fErrorFlag := 1\<rparr>)"
    using assms by (subst SQLReadArrayCompress.simps) auto
next
  assume ok: "first = int indx \<and> first \<le> lst \<and> lst < arrsize"
  obtain x s1 where rd: "rd (vname ! indx) s = (x, s1)" by (cases "rd (vname ! indx) s")
  have rr: "replicate_run (vname[indx := x]) indx lst (indx + 1) =
        (map (\<lambda>i. if indx + 1 \<le> i \<and> int i \<le> lst then vname[indx := x] ! indx else vname[indx := x] ! i)
             [0..<length (vname[indx := x])], max (indx + 1) (nat (lst + 1)))"
    by (rule replicate_run_spec) simp
  have mx: "max (indx + 1) (nat (lst + 1)) = nat lst + 1" using ok by auto
  have eq: "map (\<lambda>i. if indx + 1 \<le> i \<and> int i \<le> lst then vname[indx := x] ! indx else vname[indx := x] ! i)
             [0..<length (vname[indx := x])]
          = map (\<lambda>i. if indx \<le> i \<and> int i \<le> lst then x else vname ! i) [0..<length vname]"
    using ok by (intro nth_equalityI) (auto simp: nth_list_update)
  have rr': "replicate_run (vname[indx := x]) indx lst (Suc indx) =
        (map (\<lambda>i. if indx \<le> i \<and> int i \<le> lst then x else vname ! i) [0..<length vname],
         Suc (nat lst))"
    using rr mx eq by simp
  show "SQLReadArrayCompress rd vname arrsize indx s =
              SQLReadArrayCompress rd
                (map (\<lambda>i. if indx \<le> i \<and> int i \<le> lst then fst (rd (vname ! indx) s) else vname ! i)
                     [0..<length vname])
                arrsize (nat lst + 1) (snd (rd (vname ! indx) s))"
    using assms ok rd rr'
    by (subst SQLReadArrayCompress.simps) (simp cong: if_cong)
qed

lemma SQLReadArrayCompress_runs:
  assumes rd: "\<forall>old r. rd old r = (case SqlReadValue tn r of
                                      (Some res, r1) \<Rightarrow> (conv old res, r1)
                                    | (None, r1) \<Rightarrow> (zero, r1))"
    and codec: "\<forall>x \<in> set v. \<forall>old. conv old (fmt x) = dec x"
    and len: "is_Int_t (int (length v))"
  shows "covers rs indx v \<Longrightarrow> length w = length v \<Longrightarrow> take indx w = take indx (map dec v) \<Longrightarrow>
   \<not> fErrorFlag r > 0 \<Longrightarrow> cur_data r = Some d \<Longrightarrow> IsBlobData d \<Longrightarrow>
   fCells d = map (run_cell tn fmt) rs @ rest \<Longrightarrow>
   \<exists>r'. SQLReadArrayCompress rd w (int (length v)) indx r = Some (map dec v, r')
       \<and> cur_data r' = Some (d\<lparr>fCells := rest\<rparr>) \<and> fErrorFlag r' = fErrorFlag r
       \<and> nodes r' = nodes r \<and> fStk r' = fStk r \<and> diag r' = diag r"
proof (induction rs arbitrary: indx w r d)
  case Nil
  then have i: "indx = length v" by simp
  have "w = map dec v" using Nil.prems(2,3) i by simp
  moreover have "d\<lparr>fCells := rest\<rparr> = d" using Nil.prems(7) by simp
  ultimately show ?case
    using i Nil.prems(5) by (subst SQLReadArrayCompress.simps) simp
next
  case (Cons run rs)
  obtain x st k where run: "run = (x, st, k)" by (cases run)
  have cov: "st = indx" "1 \<le> k" "indx + k \<le> length v" "\<forall>j<k. v ! (indx + j) = x"
            "covers rs (indx + k) v"
    using Cons.prems(1) unfolding run by simp_all
  let ?c = "run_cell tn fmt (x, indx, k)"
  let ?rest = "map (run_cell tn fmt) rs @ rest"
  let ?lst = "int indx + int k - 1"
  have xv: "x \<in> set v"
  proof -
    have "v ! (indx + 0) = x" using cov(2,4) by (metis less_eq_Suc_le One_nat_def)
    moreover have "indx < length v" using cov(2,3) by simp
    ultimately show ?thesis by (metis add.right_neutral nth_mem)
  qed
  have cx: "\<And>old. conv old (fmt x) = dec x" using codec xv by simp
  have cells: "fCells d = ?c # ?rest"
    using Cons.prems(7) run cov(1) by simp
  have lt: "int indx < int (length v)" using cov(2,3) by simp
  have name: "GetBlobPrefixName d = Some (array_tag (int indx) (int k))"
    using cells by (simp add: GetBlobPrefixName_def run_cell_def)
  have rng: "is_Int_t (int indx)" "is_Int_t (int indx + int k - 1)"
    using len cov(2,3) by (simp_all add: is_Int_t_def)
  have tag: "scan_tag (array_tag (int indx) (int k)) = (Some (int indx), Some ?lst)"
    using cov(2) scan_tag_array_tag [OF rng] by simp
  obtain r1 where r1: "rd (w ! indx) r = (dec x, r1)"
      "cur_data r1 = Some (d\<lparr>fCells := ?rest\<rparr>)" "fErrorFlag r1 = fErrorFlag r"
      "nodes r1 = nodes r" "fStk r1 = fStk r" "diag r1 = diag r"
    using SqlReadBasic_cell [OF rd Cons.prems(4,5) cells, of "fmt x" "w ! indx"] cx
    by (auto simp: run_cell_def)
  let ?w = "map (\<lambda>i. if indx \<le> i \<and> int i \<le> ?lst then dec x else w ! i) [0..<length w]"
  have step: "SQLReadArrayCompress rd w (int (length v)) indx r =
              SQLReadArrayCompress rd ?w (int (length v)) (indx + k) r1"
  proof -
    have ok: "int indx = int indx \<and> int indx \<le> ?lst \<and> ?lst < int (length v)"
      using cov(2,3) by simp
    have nl: "nat ?lst + 1 = indx + k" using cov(2) by simp
    show ?thesis
      using SQLReadArrayCompress_unfold [OF lt Cons.prems(5) name tag, of rd w] ok r1(1) nl
      by (simp cong: if_cong)
  qed
  have nth: "?w ! i = map dec v ! i" if i: "i < indx + k" for i
  proof (cases "i < indx")
    case True
    have "w ! i = take indx w ! i" using True by simp
    also have "\<dots> = map dec v ! i" using True Cons.prems(3) by simp
    finally show ?thesis using True i cov(3) Cons.prems(2) by simp
  next
    case False
    then obtain j where j: "i = indx + j" "j < k"
      using i by (metis add_diff_inverse_nat nat_add_left_cancel_less)
    then show ?thesis using cov(3,4) Cons.prems(2) by simp
  qed
  have tk: "take (indx + k) ?w = take (indx + k) (map dec v)"
    using cov(3) Cons.prems(2) nth by (intro nth_take_lemma) simp_all
  have d1: "IsBlobData (d\<lparr>fCells := ?rest\<rparr>)" "fCells (d\<lparr>fCells := ?rest\<rparr>) = ?rest"
    using Cons.prems(6) by simp_all
  have f1: "\<not> fErrorFlag r1 > 0" using r1(3) Cons.prems(4) by simp
  have lw: "length ?w = length v" using Cons.prems(2) by simp
  obtain r' where r': "SQLReadArrayCompress rd ?w (int (length v)) (indx + k) r1 = Some (map dec v, r')"
      "cur_data r' = Some (d\<lparr>fCells := ?rest\<rparr>\<lparr>fCells := rest\<rparr>)" "fErrorFlag r' = fErrorFlag r1"
      "nodes r' = nodes r1" "fStk r' = fStk r1" "diag r' = diag r1"
    using Cons.IH [OF cov(5) lw tk f1 r1(2) d1] by blast
  show ?case
    unfolding step using r' r1 by simp
qed

lemma SQLReadArrayUncompress_cells:
  assumes rd: "\<forall>old r. rd old r = (case SqlReadValue tn r of
                                      (Some res, r1) \<Rightarrow> (conv old res, r1)
                                    | (None, r1) \<Rightarrow> (zero, r1))"
    and codec: "\<forall>x \<in> set v. \<forall>old. conv old (fmt x) = dec x"
  shows "indx \<le> length v \<Longrightarrow> length w = length v \<Longrightarrow> take indx w = take indx (map dec v) \<Longrightarrow>
   \<not> fErrorFlag r > 0 \<Longrightarrow> cur_data r = Some d \<Longrightarrow> \<not> IsBlobData d \<Longrightarrow>
   map LocatedValue (take (length v - indx) (fCells d)) = map (\<lambda>j. Some (fmt (v ! j))) [indx..<length v] \<Longrightarrow>
   length v - indx \<le> length (fCells d) \<Longrightarrow>
   \<exists>r'. SQLReadArrayUncompress rd w (int (length v)) indx r = (map dec v, r')
       \<and> cur_data r' = Some (d\<lparr>fCells := drop (length v - indx) (fCells d)\<rparr>)
       \<and> fErrorFlag r' = fErrorFlag r \<and> nodes r' = nodes r \<and> fStk r' = fStk r \<and> diag r' = diag r"
proof (induction "length v - indx" arbitrary: indx w r d)
  case 0
  then have i: "indx = length v" by simp
  have "w = map dec v" using "0.prems"(2,3) i by simp
  then show ?case
    using i "0.prems"(5) by (subst SQLReadArrayUncompress.simps) simp
next
  case (Suc m)
  then have lt: "indx < length v" by simp
  obtain c rest where cells: "fCells d = c # rest"
    using Suc.prems(8) Suc.hyps(2) by (cases "fCells d") auto
  have ln: "length v - indx = Suc (length v - Suc indx)" using lt by simp
  have cv: "LocatedValue c = Some (fmt (v ! indx))"
    using Suc.prems(7) lt unfolding cells ln by (simp add: upt_conv_Cons)
  have restv: "map LocatedValue (take (length v - Suc indx) rest)
                = map (\<lambda>j. Some (fmt (v ! j))) [Suc indx..<length v]"
    using Suc.prems(7) lt unfolding cells ln by (simp add: upt_conv_Cons)
  have cx: "\<And>old. conv old (fmt (v ! indx)) = dec (v ! indx)" using codec lt by simp
  obtain r1 where r1: "rd (w ! indx) r = (dec (v ! indx), r1)"
      "cur_data r1 = Some (d\<lparr>fCells := rest\<rparr>)" "fErrorFlag r1 = fErrorFlag r"
      "nodes r1 = nodes r" "fStk r1 = fStk r" "diag r1 = diag r"
    using SqlReadBasic_cell [OF rd Suc.prems(4,5) cells cv, of "w ! indx"] Suc.prems(6) cx
    by auto
  let ?w = "w[indx := dec (v ! indx)]"
  have step: "SQLReadArrayUncompress rd w (int (length v)) indx r =
              SQLReadArrayUncompress rd ?w (int (length v)) (Suc indx) r1"
    using lt r1(1) by (subst SQLReadArrayUncompress.simps) simp
  have tk: "take (Suc indx) ?w = take (Suc indx) (map dec v)"
    using lt Suc.prems(2,3) by (simp add: take_Suc_conv_app_nth)
  have m: "m = length v - Suc indx" using Suc.hyps(2) by simp
  have d1: "\<not> IsBlobData (d\<lparr>fCells := rest\<rparr>)" using Suc.prems(6) by simp
  have le: "length v - Suc indx \<le> length (fCells (d\<lparr>fCells := rest\<rparr>))"
    using Suc.prems(8) cells lt by simp
  have f1: "\<not> fErrorFlag r1 > 0" using r1(3) Suc.prems(4) by simp
  obtain r' where r': "SQLReadArrayUncompress rd ?w (int (length v)) (Suc indx) r1 = (map dec v, r')"
      "cur_data r' = Some (d\<lparr>fCells := rest\<rparr>\<lparr>fCells := drop (length v - Suc indx) (fCells (d\<lparr>fCells := rest\<rparr>))\<rparr>)"
      "fErrorFlag r' = fErrorFlag r1" "nodes r' = nodes r1" "fStk r' = fStk r1" "diag r' = diag r1"
    using Suc.hyps(1) [OF m _ _ tk f1 r1(2) d1 _ le] lt Suc.prems(2) restv by auto
  have dr: "drop (length v - indx) (fCells d) = drop (length v - Suc indx) rest"
    unfolding cells ln by simp
  show ?case
    unfolding step dr using r' r1 by simp
qed

lemma reader_frame:
  "cur_data (on_Stack f (PushStack r)) = cur_data r"
  "fErrorFlag (on_Stack f (PushStack r)) = fErrorFlag r"
  "cur_data (PopStack t) = cur_data t"
  "fErrorFlag (PopStack t) = fErrorFlag t"
  by (auto simp: cur_data_def on_Stack_def PushStack_def PopStack_def Let_def split: option.splits)

lemma written_runs:
  assumes wr: "\<forall>x s. wr x s = SqlWriteValue (fmt x) tn s"
  shows "array_vals (SQLWriteArrayContent wr v (int (length v)) withsize s) (length (nodes s)) =
           map (\<lambda>(x, i, k). run_node (length (nodes s)) (fmt x) tn (int i) (int k))
               (if fCompressLevel s > 0 then maximal_runs v
                else map (\<lambda>j. (v ! j, j, 1)) [0..<length v])"
  unfolding maximal_runs_def
  using SQLWriteArrayContent_vals [OF wr refl, of v withsize s]
  by (simp add: comp_def)

lemma written_cells:
  assumes wr: "\<forall>x s. wr x s = SqlWriteValue (fmt x) tn s"
  shows "array_cells (SQLWriteArrayContent wr v (int (length v)) withsize s) (length (nodes s)) =
           map (run_cell tn fmt)
               (if fCompressLevel s > 0 then maximal_runs v
                else map (\<lambda>j. (v ! j, j, 1)) [0..<length v])"
  unfolding array_cells_def written_runs [OF wr]
  by (auto simp: run_cell_def value_cell_def run_node_def new_TSQLStructure_def)

lemma SQLReadArrayContent_blob:
  assumes rd: "\<forall>old r. rd old r = (case SqlReadValue tn r of
                                      (Some res, r1) \<Rightarrow> (conv old res, r1)
                                    | (None, r1) \<Rightarrow> (zero, r1))"
    and codec: "\<forall>x \<in> set v. \<forall>old. conv old (fmt x) = dec x"
    and len: "is_Int_t (int (length v))"
    and "covers rs 0 v" "length w = length v" "\<not> fErrorFlag r > 0" "cur_data r = Some d"
    "IsBlobData d" "fCells d = map (run_cell tn fmt) rs @ rest"
  shows "\<exists>r'. SQLReadArrayContent rd w (int (length v)) withsize r = Some (map dec v, r')
             \<and> fErrorFlag r' = fErrorFlag r \<and> cur_data r' = Some (d\<lparr>fCells := rest\<rparr>)"
proof -
  let ?r1 = "on_Stack (SetArray (if withsize then int (length v) else - 1)) (PushStack r)"
  have f: "\<not> fErrorFlag ?r1 > 0" using assms(6) by (simp add: reader_frame)
  have c: "cur_data ?r1 = Some d" using assms(7) by (simp add: reader_frame)
  obtain r2 where r2: "SQLReadArrayCompress rd w (int (length v)) 0 ?r1 = Some (map dec v, r2)"
      "cur_data r2 = Some (d\<lparr>fCells := rest\<rparr>)" "fErrorFlag r2 = fErrorFlag ?r1"
    using SQLReadArrayCompress_runs [OF rd codec len assms(4,5) _ f c assms(8,9)] by auto
  show ?thesis
    using c assms(8) r2 by (simp add: SQLReadArrayContent_def Let_def reader_frame)
qed

lemma SQLReadArrayContent_column:
  assumes rd: "\<forall>old r. rd old r = (case SqlReadValue tn r of
                                      (Some res, r1) \<Rightarrow> (conv old res, r1)
                                    | (None, r1) \<Rightarrow> (zero, r1))"
    and codec: "\<forall>x \<in> set v. \<forall>old. conv old (fmt x) = dec x"
    and "length w = length v" "\<not> fErrorFlag r > 0" "cur_data r = Some d"
    "\<not> IsBlobData d" "fCells d = map (run_cell tn fmt) (map (\<lambda>j. (v ! j, j, 1)) [0..<length v]) @ rest"
  shows "\<exists>r'. SQLReadArrayContent rd w (int (length v)) withsize r = Some (map dec v, r')
             \<and> fErrorFlag r' = fErrorFlag r \<and> cur_data r' = Some (d\<lparr>fCells := rest\<rparr>)"
proof -
  let ?r1 = "on_Stack (SetArray (if withsize then int (length v) else - 1)) (PushStack r)"
  have f: "\<not> fErrorFlag ?r1 > 0" using assms(4) by (simp add: reader_frame)
  have c: "cur_data ?r1 = Some d" using assms(5) by (simp add: reader_frame)
  have vals: "map LocatedValue (take (length v - 0) (fCells d)) =
              map (\<lambda>j. Some (fmt (v ! j))) [0..<length v]"
    unfolding assms(7) by (simp add: run_cell_def comp_def)
  have len: "length v - 0 \<le> length (fCells d)" unfolding assms(7) by simp
  have dr: "drop (length v - 0) (fCells d) = rest" unfolding assms(7) by simp
  obtain r2 where r2: "SQLReadArrayUncompress rd w (int (length v)) 0 ?r1 = (map dec v, r2)"
      "cur_data r2 = Some (d\<lparr>fCells := drop (length v - 0) (fCells d)\<rparr>)" "fErrorFlag r2 = fErrorFlag ?r1"
    using SQLReadArrayUncompress_cells [OF rd codec _ assms(3) _ f c assms(6) vals len] by auto
  show ?thesis
    using c assms(6) r2 dr by (simp add: SQLReadArrayContent_def Let_def reader_frame)
qed


definition compressing_buffer :: TBufferSQL2 where
  "compressing_buffer = (TBufferSQL2_new None)\<lparr>fCompressLevel := 1\<rparr>"

definition blob_data :: "sql_cell list \<Rightarrow> TSQLObjectData" where
  "blob_data cells =
     \<lparr>fInfo = None, fDataObjId = 1, fClassData = None, fClassRow = None,
      IsBlobData = True, fCells = cells\<rparr>"

definition reading_buffer :: "TSQLObjectData \<Rightarrow> TBufferSQL2" where
  "reading_buffer d = (TBufferSQL2_new None)\<lparr>odata := [d], fCurrentData := Some 0\<rparr>"


text \<open>
  Claim C4. When a compressed array is read, the index tag of each run is checked against
  the cursor: the run must start at the expected index \<open>indx\<close>, must not end before it
  starts, and must end inside the array. The numbers of the tag are read into \<open>Int_t\<close>
  variables. A tag whose start is not \<open>indx\<close> (whatever follows the start), or whose end
  is before its start (such as \<open>[2..1]\<close>) or not inside the array, makes the loop stop at
  once, with the error flag set, the failure reported, and the array as it was, so the
  elements from \<open>indx\<close> on keep their old content. A tag that passes reads one value and
  copies it to every index of the run, and the loop goes on behind the run.
\<close>

theorem SQLReadArrayCompress_run_check:
  assumes "int indx < arrsize"
    and "cur_data s = Some d"
    and "GetBlobPrefixName d = Some name"
    and "fst (scan_tag name) = Some first"
  shows "(first \<noteq> int indx \<longrightarrow>
            SQLReadArrayCompress rd vname arrsize indx s =
              Some (vname, (Error ''SQLReadArrayCompress''
                              (''Error reading array content '' @ name) s)\<lparr>fErrorFlag := 1\<rparr>))
       \<and> (\<forall>lst. first = int indx \<and> snd (scan_tag name) = Some lst \<longrightarrow>
            (lst < first \<or> arrsize \<le> lst \<longrightarrow>
               SQLReadArrayCompress rd vname arrsize indx s =
                 Some (vname, (Error ''SQLReadArrayCompress''
                                 (''Error reading array content '' @ name) s)\<lparr>fErrorFlag := 1\<rparr>))
          \<and> (first \<le> lst \<and> lst < arrsize \<longrightarrow>
               SQLReadArrayCompress rd vname arrsize indx s =
                 SQLReadArrayCompress rd
                   (map (\<lambda>i. if indx \<le> i \<and> int i \<le> lst then fst (rd (vname ! indx) s) else vname ! i)
                        [0..<length vname])
                   arrsize (nat lst + 1) (snd (rd (vname ! indx) s))))"
proof (intro conjI allI impI)
  assume "first \<noteq> int indx"
  then show "SQLReadArrayCompress rd vname arrsize indx s =
              Some (vname, (Error ''SQLReadArrayCompress''
                              (''Error reading array content '' @ name) s)\<lparr>fErrorFlag := 1\<rparr>)"
    using assms by (rule SQLReadArrayCompress_first_mismatch [rotated 4])
next
  fix lst
  assume a: "first = int indx \<and> snd (scan_tag name) = Some lst"
  then have tag: "scan_tag name = (Some first, Some lst)"
    using assms(4) by (cases "scan_tag name") simp
  note u = SQLReadArrayCompress_unfold [OF assms(1,2,3) tag, of rd vname]
  {
    assume "lst < first \<or> arrsize \<le> lst"
    then show "SQLReadArrayCompress rd vname arrsize indx s =
                 Some (vname, (Error ''SQLReadArrayCompress''
                                 (''Error reading array content '' @ name) s)\<lparr>fErrorFlag := 1\<rparr>)"
      using u by blast
  }
  {
    assume "first \<le> lst \<and> lst < arrsize"
    then show "SQLReadArrayCompress rd vname arrsize indx s =
                 SQLReadArrayCompress rd
                   (map (\<lambda>i. if indx \<le> i \<and> int i \<le> lst then fst (rd (vname ! indx) s) else vname ! i)
                        [0..<length vname])
                   arrsize (nat lst + 1) (snd (rd (vname ! indx) s))"
      using u a by blast
  }
qed

definition corrupted_run_state :: TBufferSQL2 where
  "corrupted_run_state =
     (TBufferSQL2_new None)
       \<lparr>odata := [\<lparr>fInfo = None, fDataObjId = 1, fClassData = None, fClassRow = None,
                   IsBlobData = True,
                   fCells = [\<lparr>BlobPrefixName = ''[2..1]'', BlobTypeName = sqlio_Int,
                              LocatedValue = Some ''7''\<rparr>]\<rparr>],
        fCurrentData := Some 0\<rparr>"

theorem SQLReadArrayCompress_run_check_witness:
  "SQLReadArrayCompress SqlReadBasic_Int [5, 5, 9, 9] 4 2 corrupted_run_state =
     Some ([5, 5, 9, 9],
           (Error ''SQLReadArrayCompress'' ''Error reading array content [2..1]''
              corrupted_run_state)\<lparr>fErrorFlag := 1\<rparr>)"
proof -
  let ?d = "\<lparr>fInfo = None, fDataObjId = 1, fClassData = None, fClassRow = None,
             IsBlobData = True,
             fCells = [\<lparr>BlobPrefixName = ''[2..1]'', BlobTypeName = sqlio_Int,
                        LocatedValue = Some ''7''\<rparr>]\<rparr>"
  have h1: "int 2 < (4::int)" by simp
  have h2: "cur_data corrupted_run_state = Some ?d"
    by (simp add: cur_data_def corrupted_run_state_def TBufferSQL2_new_def)
  have h3: "GetBlobPrefixName ?d = Some ''[2..1]''"
    by (simp add: GetBlobPrefixName_def)
  have tag: "scan_tag ''[2..1]'' = (Some 2, Some 1)"
    by code_simp
  have h4: "fst (scan_tag ''[2..1]'') = Some 2" using tag by simp
  have h5: "snd (scan_tag ''[2..1]'') = Some 1" using tag by simp
  show ?thesis
    using SQLReadArrayCompress_run_check [OF h1 h2 h3 h4, of SqlReadBasic_Int "[5, 5, 9, 9]"] h5
    by simp
qed


section \<open>Properties of the object registry and the stack\<close>

text \<open>The id the registry holds for an address: \<open>fFirstObjId + value - 1\<close>, as
  \<open>SqlWriteObject\<close> computes it from the stored value.\<close>

definition registered :: "TBufferSQL2 \<Rightarrow> int \<Rightarrow> int option" where
  "registered s obj =
     (case fObjMap s of
        None \<Rightarrow> None
      | Some m \<Rightarrow> (case m obj of None \<Rightarrow> None | Some v \<Rightarrow> Some (fFirstObjId s + v - 1)))"

text \<open>
  The invariant of a write pass: the first id is not negative, every registered id lies
  between the first id of the pass and the id counter, no null address is registered,
  and two addresses never share an id.
\<close>

definition pass_inv :: "TBufferSQL2 \<Rightarrow> bool" where
  "pass_inv s =
     (0 \<le> fFirstObjId s \<and> fFirstObjId s \<le> fObjIdCounter s
      \<and> (\<forall>a i. registered s a = Some i \<longrightarrow> fFirstObjId s \<le> i \<and> i < fObjIdCounter s \<and> a \<noteq> 0)
      \<and> (\<forall>a b i. registered s a = Some i \<and> registered s b = Some i \<longrightarrow> a = b))"

text \<open>The node a call of \<open>SqlWriteObject\<close> leaves for an object that is null or already
  registered: a reference node with the id, below the node that was current.\<close>

definition reference_only :: "int \<Rightarrow> TBufferSQL2 \<Rightarrow> TBufferSQL2" where
  "reference_only objid s = PopStack (on_Stack (SetObjectPointer objid) (PushStack s))"

definition ids :: "TBufferSQL2 \<Rightarrow> (int \<rightharpoonup> int) option \<times> int \<times> int" where
  "ids s = (fObjMap s, fObjIdCounter s, fFirstObjId s)"

lemma registered_ids: "ids s' = ids s \<Longrightarrow> registered s' = registered s"
  by (auto simp: ids_def registered_def fun_eq_iff split: option.splits)

lemma pass_inv_ids: "ids s' = ids s \<Longrightarrow> pass_inv s' = pass_inv s"
  using registered_ids [of s' s] by (auto simp: pass_inv_def ids_def)

lemma ids_stack [simp]:
  "ids (PushStack s) = ids s"
  "ids (PopStack s) = ids s"
  "ids (on_Stack f s) = ids s"
  "ids (SqlWriteValue v tn s) = ids s"
  "ids (Stack_ChildArrayIndex i k s) = ids s"
  by (auto simp: ids_def PushStack_def PopStack_def on_Stack_def SqlWriteValue_def
      Stack_AddValue_def Stack_ChildArrayIndex_def Let_def split: option.splits)

lemma ids_SQLWriteArrayNoncompress:
  "(\<forall>x s. ids (wr x s) = ids s) \<Longrightarrow> ids (SQLWriteArrayNoncompress wr v n indx s) = ids s"
proof (induction wr v n indx s rule: SQLWriteArrayNoncompress.induct)
  case (1 wr vname arrsize indx s)
  show ?case
  proof (cases "int indx < arrsize")
    case True
    then show ?thesis
      using "1.IH" [OF True "1.prems"] "1.prems"
      by (subst SQLWriteArrayNoncompress.simps) simp
  next
    case False
    then show ?thesis by (subst SQLWriteArrayNoncompress.simps) simp
  qed
qed

lemma ids_SQLWriteArrayCompress:
  "(\<forall>x s. ids (wr x s) = ids s) \<Longrightarrow> ids (SQLWriteArrayCompress wr v n indx s) = ids s"
proof (induction wr v n indx s rule: SQLWriteArrayCompress.induct)
  case (1 wr vname arrsize indx s)
  show ?case
  proof (cases "int indx < arrsize")
    case True
    then show ?thesis
      using "1.IH" [OF True refl refl "1.prems"] "1.prems"
      by (subst SQLWriteArrayCompress.simps) (simp add: Let_def)
  next
    case False
    then show ?thesis by (subst SQLWriteArrayCompress.simps) simp
  qed
qed

lemma ids_SQLWriteArrayContent:
  "(\<forall>x s. ids (wr x s) = ids s) \<Longrightarrow> ids (SQLWriteArrayContent wr v n withsize s) = ids s"
  by (simp add: SQLWriteArrayContent_def Let_def ids_SQLWriteArrayCompress
      ids_SQLWriteArrayNoncompress)

lemma ids_writes [simp]:
  "ids (SqlWriteBasic_Int i s) = ids s"
  "ids (WriteArray_Int v n s) = ids s"
  by (simp_all add: SqlWriteBasic_Int_def WriteArray_Int_def ids_SQLWriteArrayContent)

text \<open>Writing an address that is registered, or a null object: no callback is entered,
  whatever the fuel and the callbacks are.\<close>

lemma SqlWriteObject_null:
  "cl = None \<or> obj = 0 \<Longrightarrow>
   SqlWriteObject fuel Streamer obj cl streamer idx s = Some (0, reference_only 0 s)"
  by (auto simp: SqlWriteObject.simps reference_only_def Int_t_of_Long64_def Let_def)

lemma SqlWriteObject_registered:
  assumes "pass_inv s" and "registered s obj = Some i"
  shows "SqlWriteObject fuel Streamer obj (Some c) streamer idx s
           = Some (Int_t_of_Long64 i, reference_only i s)"
proof -
  obtain m v where m: "fObjMap s = Some m" "m obj = Some v" "i = fFirstObjId s + v - 1"
    using assms(2) by (auto simp: registered_def split: option.splits)
  have inv: "0 \<le> fFirstObjId s" "fFirstObjId s \<le> i \<and> i < fObjIdCounter s \<and> obj \<noteq> 0"
    using assms unfolding pass_inv_def by blast+
  have nz: "obj \<noteq> 0" and ge: "0 \<le> i" and first: "fFirstObjId s \<le> i"
    using inv by simp_all
  have v: "v > 0" using first m(3) by simp
  have p: "fObjMap (PushStack s) = Some m" "fFirstObjId (PushStack s) = fFirstObjId s"
    using ids_stack(1) [of s] m(1) by (simp_all add: ids_def)
  show ?thesis
    using nz ge v m p
    by (simp add: SqlWriteObject.simps reference_only_def Let_def TExMap_GetValue_def)
qed

text \<open>\<open>extends s s'\<close>: \<open>s'\<close> is a later state of the pass of \<open>s\<close>: the invariant holds, the
  first id is the same, what was registered stays registered with its id, and whatever
  is new has an id from the counter of \<open>s\<close> on.\<close>

definition extends :: "TBufferSQL2 \<Rightarrow> TBufferSQL2 \<Rightarrow> bool" where
  "extends s s' =
     (pass_inv s' \<and> fFirstObjId s' = fFirstObjId s \<and> fObjIdCounter s \<le> fObjIdCounter s'
      \<and> (\<forall>b j. registered s b = Some j \<longrightarrow> registered s' b = Some j)
      \<and> (\<forall>b j. registered s' b = Some j \<longrightarrow> registered s b = Some j \<or> fObjIdCounter s \<le> j))"

lemma extends_ids: "pass_inv s \<Longrightarrow> ids s' = ids s \<Longrightarrow> extends s s'"
  using registered_ids [of s' s] pass_inv_ids [of s' s]
  by (auto simp: extends_def ids_def)

lemma extends_trans: "extends s t \<Longrightarrow> extends t u \<Longrightarrow> extends s u"
  unfolding extends_def by (metis order_trans)

lemma extends_ids_right: "extends s t \<Longrightarrow> ids u = ids t \<Longrightarrow> extends s u"
  using registered_ids [of u t] pass_inv_ids [of u t]
  by (auto simp: extends_def ids_def)

text \<open>The state in which the callback of a new object is entered: the node is pushed and
  made an Object node with the next id, the counter is advanced and the address is
  registered.\<close>

definition begin_object :: "int \<Rightarrow> TClass option \<Rightarrow> TBufferSQL2 \<Rightarrow> TBufferSQL2" where
  "begin_object obj cl s =
     (let s1 = PushStack s;
          objid' = fObjIdCounter s1;
          s2 = on_Stack (SetObjectRef objid' cl) (s1\<lparr>fObjIdCounter := objid' + 1\<rparr>);
          m = (case fObjMap s2 of None \<Rightarrow> Map.empty | Some m \<Rightarrow> m)
      in s2\<lparr>fObjMap := Some (if TExMap_GetValue m obj = 0
                               then TExMap_Add m obj (objid' - fFirstObjId s2 + 1)
                               else m)\<rparr>)"

lemma ids_begin_object:
  assumes "registered s obj = None" and "pass_inv s"
  shows "ids (begin_object obj cl s) =
           (Some ((case fObjMap s of None \<Rightarrow> Map.empty | Some m \<Rightarrow> m)
                    (obj \<mapsto> fObjIdCounter s - fFirstObjId s + 1)),
            fObjIdCounter s + 1, fFirstObjId s)"
proof -
  have abs: "(case fObjMap s of None \<Rightarrow> Map.empty | Some m \<Rightarrow> m) obj = None"
    using assms(1) by (auto simp: registered_def split: option.splits)
  have p: "fObjMap (PushStack s) = fObjMap s" "fFirstObjId (PushStack s) = fFirstObjId s"
          "fObjIdCounter (PushStack s) = fObjIdCounter s"
    using ids_stack(1) [of s] by (simp_all add: ids_def)
  have o: "\<And>f t. fObjMap (on_Stack f t) = fObjMap t" "\<And>f t. fFirstObjId (on_Stack f t) = fFirstObjId t"
          "\<And>f t. fObjIdCounter (on_Stack f t) = fObjIdCounter t"
    using ids_stack(3) by (simp_all add: ids_def)
  show ?thesis
    using abs by (simp add: begin_object_def Let_def ids_def p o TExMap_GetValue_def TExMap_Add_def)
qed

lemma registered_begin_object:
  assumes "registered s obj = None" and "pass_inv s"
  shows "registered (begin_object obj cl s) b =
           (if b = obj then Some (fObjIdCounter s) else registered s b)"
  using ids_begin_object [OF assms, of cl]
  by (auto simp: registered_def ids_def split: option.splits)

lemma extends_begin_object:
  assumes "registered s obj = None" and "pass_inv s" and "obj \<noteq> 0"
  shows "extends s (begin_object obj cl s)"
proof -
  let ?t = "begin_object obj cl s"
  have r: "\<And>b. registered ?t b = (if b = obj then Some (fObjIdCounter s) else registered s b)"
    by (rule registered_begin_object [OF assms(1,2)])
  have i: "fObjIdCounter ?t = fObjIdCounter s + 1" "fFirstObjId ?t = fFirstObjId s"
    using ids_begin_object [OF assms(1,2), of cl] by (simp_all add: ids_def)
  have inv: "0 \<le> fFirstObjId s" "fFirstObjId s \<le> fObjIdCounter s"
    "\<And>a i. registered s a = Some i \<Longrightarrow> fFirstObjId s \<le> i \<and> i < fObjIdCounter s \<and> a \<noteq> 0"
    "\<And>a b i. registered s a = Some i \<Longrightarrow> registered s b = Some i \<Longrightarrow> a = b"
    using assms(2) unfolding pass_inv_def by blast+
  have a: "\<forall>a j. registered ?t a = Some j \<longrightarrow> fFirstObjId ?t \<le> j \<and> j < fObjIdCounter ?t \<and> a \<noteq> 0"
  proof (intro allI impI)
    fix a j assume h: "registered ?t a = Some j"
    show "fFirstObjId ?t \<le> j \<and> j < fObjIdCounter ?t \<and> a \<noteq> 0"
    proof (cases "a = obj")
      case True
      then show ?thesis using h r i inv(2) assms(3) by simp
    next
      case False
      then have "registered s a = Some j" using h r by simp
      then show ?thesis using inv(3) [of a j] i by simp
    qed
  qed
  have b: "\<forall>a b j. registered ?t a = Some j \<and> registered ?t b = Some j \<longrightarrow> a = b"
  proof (intro allI impI)
    fix a b j assume h: "registered ?t a = Some j \<and> registered ?t b = Some j"
    show "a = b"
    proof (cases "a = obj \<or> b = obj")
      case False
      then show ?thesis using h r inv(4) [of a j b] by simp
    next
      case True
      then show ?thesis using h r inv(3) [of a j] inv(3) [of b j]
        by (auto split: if_splits)
    qed
  qed
  have "pass_inv ?t"
    unfolding pass_inv_def using a b i inv(1,2) by simp
  then show ?thesis
    unfolding extends_def r i using assms(1) by auto
qed

lemma SqlWriteObject_new:
  assumes "pass_inv s" and "registered s obj = None" and "obj \<noteq> 0"
  shows "SqlWriteObject fuel Streamer obj (Some c) streamer idx s =
           (case fuel of
              0 \<Rightarrow> None
            | Suc fuel' \<Rightarrow>
                (case run_streamer fuel' Streamer
                        (case streamer of Some member \<Rightarrow> member obj idx | None \<Rightarrow> Streamer c obj)
                        (begin_object obj (Some c) s) of
                   None \<Rightarrow> None
                 | Some s4 \<Rightarrow> Some (Int_t_of_Long64 (fObjIdCounter s), PopStack s4)))"
proof -
  have p: "fObjMap (PushStack s) = fObjMap s" "fFirstObjId (PushStack s) = fFirstObjId s"
          "fObjIdCounter (PushStack s) = fObjIdCounter s"
    using ids_stack(1) [of s] by (simp_all add: ids_def)
  show ?thesis
  proof (cases "fObjMap s")
    case None
    then show ?thesis
      using assms(3)
      by (cases streamer)
         (simp_all add: SqlWriteObject.simps begin_object_def Let_def TExMap_GetValue_def
            split: nat.splits)
  next
    case (Some m)
    then have "m obj = None"
      using assms(2) by (auto simp: registered_def split: option.splits)
    then have "TExMap_GetValue m obj = 0" by (simp add: TExMap_GetValue_def)
    then show ?thesis
      using assms(3) Some
      by (cases streamer)
         (simp_all add: SqlWriteObject.simps begin_object_def Let_def split: nat.splits)
  qed
qed

lemma pass_inv_begin: "0 \<le> objid \<Longrightarrow> fObjMap s = None \<Longrightarrow> pass_inv (SqlWriteAny_begin objid s)"
  by (simp add: pass_inv_def SqlWriteAny_begin_def registered_def)

lemma extends_refl: "pass_inv s \<Longrightarrow> extends s s"
  by (simp add: extends_ids)

lemma extends_reference_only: "pass_inv s \<Longrightarrow> extends s (reference_only i s)"
  by (rule extends_ids) (simp_all add: reference_only_def)

lemma SqlWriteObject_extends_step:
  assumes R: "\<And>k calls t t'. fuel = Suc k \<Longrightarrow> pass_inv t \<Longrightarrow>
                run_streamer k D calls t = Some t' \<Longrightarrow> extends t t'"
    and inv: "pass_inv s"
    and run: "SqlWriteObject fuel D obj cl st idx s = Some (r, s')"
  shows "extends s s'"
proof (cases "cl = None \<or> obj = 0")
  case True
  then have "s' = reference_only 0 s"
    using run SqlWriteObject_null [of cl obj fuel D st idx s] by simp
  then show ?thesis using inv by (simp add: extends_reference_only)
next
  case False
  then obtain c where c: "cl = Some c" and nz: "obj \<noteq> 0" by auto
  show ?thesis
  proof (cases "registered s obj")
    case (Some i)
    then have "s' = reference_only i s"
      using run SqlWriteObject_registered [OF inv Some, of fuel D c st idx] c by simp
    then show ?thesis using inv by (simp add: extends_reference_only)
  next
    case None
    let ?calls = "case st of Some member \<Rightarrow> member obj idx | None \<Rightarrow> D c obj"
    obtain k s4 where k: "fuel = Suc k"
        and s4: "run_streamer k D ?calls (begin_object obj (Some c) s) = Some s4"
        and s': "s' = PopStack s4"
      using run unfolding c SqlWriteObject_new [OF inv None nz]
      by (auto split: nat.splits option.splits)
    have e1: "extends s (begin_object obj (Some c) s)"
      by (rule extends_begin_object [OF None inv nz])
    then have "pass_inv (begin_object obj (Some c) s)" by (simp add: extends_def)
    then have e2: "extends (begin_object obj (Some c) s) s4"
      using R [OF k _ s4] by simp
    have "extends s s4" by (rule extends_trans [OF e1 e2])
    then show ?thesis unfolding s' by (rule extends_ids_right) simp
  qed
qed

lemma run_streamer_extends_step:
  assumes W: "\<And>obj cl st idx t r t'. pass_inv t \<Longrightarrow>
                SqlWriteObject fuel D obj cl st idx t = Some (r, t') \<Longrightarrow> extends t t'"
  shows "pass_inv s \<Longrightarrow> run_streamer fuel D calls s = Some s' \<Longrightarrow> extends s s'"
proof (induction calls arbitrary: s)
  case Nil
  then show ?case by (simp add: extends_refl)
next
  case (Cons a calls)
  show ?case
  proof (cases a)
    case (WriteObjectClass obj cl)
    then obtain r s1 where s1: "SqlWriteObject fuel D obj cl None 0 s = Some (r, s1)"
        and rest: "run_streamer fuel D calls s1 = Some s'"
      using Cons.prems(2) by (auto split: option.splits)
    have e1: "extends s s1" by (rule W [OF Cons.prems(1) s1])
    then have "pass_inv s1" by (simp add: extends_def)
    then have "extends s1 s'" using Cons.IH rest by blast
    then show ?thesis using e1 extends_trans by blast
  next
    case (WriteInt i)
    then have rest: "run_streamer fuel D calls (SqlWriteBasic_Int i s) = Some s'"
      using Cons.prems(2) by simp
    have e1: "extends s (SqlWriteBasic_Int i s)"
      by (rule extends_ids [OF Cons.prems(1)]) simp
    then have "pass_inv (SqlWriteBasic_Int i s)" by (simp add: extends_def)
    then have "extends (SqlWriteBasic_Int i s) s'" using Cons.IH rest by blast
    then show ?thesis using e1 extends_trans by blast
  next
    case (WriteArray v n)
    then have rest: "run_streamer fuel D calls (WriteArray_Int v n s) = Some s'"
      using Cons.prems(2) by simp
    have e1: "extends s (WriteArray_Int v n s)"
      by (rule extends_ids [OF Cons.prems(1)]) simp
    then have "pass_inv (WriteArray_Int v n s)" by (simp add: extends_def)
    then have "extends (WriteArray_Int v n s) s'" using Cons.IH rest by blast
    then show ?thesis using e1 extends_trans by blast
  next
    case (WriteCharP c)
    then have rest: "run_streamer fuel D calls (SqlWriteValue c sqlio_CharStar s) = Some s'"
      using Cons.prems(2) by simp
    have e1: "extends s (SqlWriteValue c sqlio_CharStar s)"
      by (rule extends_ids [OF Cons.prems(1)]) simp
    then have "pass_inv (SqlWriteValue c sqlio_CharStar s)" by (simp add: extends_def)
    then have "extends (SqlWriteValue c sqlio_CharStar s) s'" using Cons.IH rest by blast
    then show ?thesis using e1 extends_trans by blast
  qed
qed

lemma write_extends:
  "(\<forall>obj cl st idx s r s'. pass_inv s \<longrightarrow> SqlWriteObject fuel D obj cl st idx s = Some (r, s')
        \<longrightarrow> extends s s')
   \<and> (\<forall>calls s s'. pass_inv s \<longrightarrow> run_streamer fuel D calls s = Some s' \<longrightarrow> extends s s')"
proof (induction fuel)
  case 0
  have W: "\<And>obj cl st idx s r s'. pass_inv s \<Longrightarrow>
             SqlWriteObject 0 D obj cl st idx s = Some (r, s') \<Longrightarrow> extends s s'"
    by (rule SqlWriteObject_extends_step) simp_all
  have R: "extends s s'" if "pass_inv s" "run_streamer 0 D calls s = Some s'" for calls s s'
    by (rule run_streamer_extends_step [where fuel = 0 and D = D, OF W that])
  show ?case
    by (intro conjI allI impI) (erule (1) W, erule (1) R)
next
  case (Suc fuel)
  have W: "\<And>obj cl st idx s r s'. pass_inv s \<Longrightarrow>
             SqlWriteObject (Suc fuel) D obj cl st idx s = Some (r, s') \<Longrightarrow> extends s s'"
  proof -
    fix obj cl st idx s r s'
    assume a: "pass_inv s" "SqlWriteObject (Suc fuel) D obj cl st idx s = Some (r, s')"
    show "extends s s'"
    proof (rule SqlWriteObject_extends_step [OF _ a])
      fix k calls t t'
      assume "Suc fuel = Suc k" "pass_inv t" "run_streamer k D calls t = Some t'"
      then show "extends t t'" using Suc by simp
    qed
  qed
  have R: "extends s s'" if "pass_inv s" "run_streamer (Suc fuel) D calls s = Some s'" for calls s s'
    by (rule run_streamer_extends_step [where fuel = "Suc fuel" and D = D, OF W that])
  show ?case
    by (intro conjI allI impI) (erule (1) W, erule (1) R)
qed

lemma SqlWriteObject_result:
  assumes inv: "pass_inv s" and nz: "obj \<noteq> 0"
    and run: "SqlWriteObject fuel D obj (Some c) st idx s = Some (r, s')"
  shows "\<exists>i. registered s' obj = Some i \<and> r = Int_t_of_Long64 i
           \<and> (registered s obj = None \<longrightarrow> i = fObjIdCounter s)
           \<and> (registered s obj \<noteq> None \<longrightarrow> registered s obj = Some i \<and> s' = reference_only i s)"
proof (cases "registered s obj")
  case (Some i)
  have "r = Int_t_of_Long64 i" "s' = reference_only i s"
    using run SqlWriteObject_registered [OF inv Some, of fuel D c st idx] by simp_all
  moreover have "registered (reference_only i s) obj = Some i"
    using Some registered_ids [of "reference_only i s" s] by (simp add: reference_only_def)
  ultimately show ?thesis using Some by simp
next
  case None
  let ?calls = "case st of Some member \<Rightarrow> member obj idx | None \<Rightarrow> D c obj"
  obtain k s4 where k: "fuel = Suc k"
      and s4: "run_streamer k D ?calls (begin_object obj (Some c) s) = Some s4"
      and s': "s' = PopStack s4" and r: "r = Int_t_of_Long64 (fObjIdCounter s)"
    using run unfolding SqlWriteObject_new [OF inv None nz]
    by (auto split: nat.splits option.splits)
  have e1: "extends s (begin_object obj (Some c) s)"
    by (rule extends_begin_object [OF None inv nz])
  then have "pass_inv (begin_object obj (Some c) s)" by (simp add: extends_def)
  then have e2: "extends (begin_object obj (Some c) s) s4"
    using write_extends [of k D] s4 by blast
  have "registered (begin_object obj (Some c) s) obj = Some (fObjIdCounter s)"
    by (simp add: registered_begin_object [OF None inv])
  then have "registered s4 obj = Some (fObjIdCounter s)"
    using e2 by (simp add: extends_def)
  then have "registered s' obj = Some (fObjIdCounter s)"
    unfolding s' using registered_ids [of "PopStack s4" s4] by simp
  then show ?thesis using None r by simp
qed


definition sample_classes :: describe where
  "sample_classes c a =
     (if a = 100 then [WriteObjectClass 200 (Some ''B''), WriteInt 7, WriteObjectClass 200 (Some ''B'')]
      else if a = 200 then [WriteObjectClass 100 (Some ''A'')]
      else [])"


lemma nodes_reference_only:
  "length (nodes (reference_only i s)) = Suc (length (nodes s))"
  "nodes (reference_only i s) ! length (nodes s)
     = new_TSQLStructure\<lparr>fParent := fStk s, fType := kSqlPointer, fObjId := i\<rparr>"
  by (auto simp: reference_only_def PopStack_def on_Stack_def PushStack_def Let_def
      SetObjectPointer_def nth_append new_TSQLStructure_def split: option.splits)

text \<open>
  Claim C10. \<open>SqlWriteObject\<close> with a null class pointer treats the object as null,
  whatever the object pointer is: it returns id 0 and leaves one new node, the reference
  node with value 0; the identity map and the id counter are as before. The result does
  not depend on the fuel, the callbacks or the member streamer: none is entered.
\<close>

theorem null_class_is_null_object:
  "SqlWriteObject fuel D obj None st idx s = Some (0, reference_only 0 s)
   \<and> fObjMap (reference_only 0 s) = fObjMap s
   \<and> fObjIdCounter (reference_only 0 s) = fObjIdCounter s
   \<and> length (nodes (reference_only 0 s)) = Suc (length (nodes s))
   \<and> nodes (reference_only 0 s) ! length (nodes s)
       = new_TSQLStructure\<lparr>fParent := fStk s, fType := kSqlPointer, fObjId := 0\<rparr>"
  using SqlWriteObject_null [of None obj fuel D st idx s] nodes_reference_only [of 0 s]
  by (simp add: reference_only_def)

text \<open>
  Claim C9, as the code has it. \<open>PopStack\<close> on an empty stack (no node is current)
  returns null and changes nothing: the error flag keeps its value and nothing is
  reported.
\<close>

theorem PopStack_underflow:
  "fStk s = None \<Longrightarrow> PopStack s = s \<and> fStk (PopStack s) = None"
  by (simp add: PopStack_def)

theorem PopStack_underflow_witness:
  "PopStack (TBufferSQL2_new None) = TBufferSQL2_new None
   \<and> fStk (PopStack (TBufferSQL2_new None)) = None"
proof -
  have "fStk (TBufferSQL2_new None) = None" by (simp add: TBufferSQL2_new_def)
  then show ?thesis by (rule PopStack_underflow)
qed

theorem PopStack_underflow_counterexample:
  "fStk (TBufferSQL2_new None) = None
   \<and> \<not> fErrorFlag (PopStack (TBufferSQL2_new None)) > 0
   \<and> diag (PopStack (TBufferSQL2_new None)) = []"
  by (simp add: PopStack_def TBufferSQL2_new_def)


section \<open>Reading objects and class data\<close>

text \<open>
  \<open>SqlObjectInfo(objid, clname, version)\<close>: class name and version of an object id, from
  the object-info list of the pass. The entry is looked for at position
  \<open>objid - fFirstObjId\<close> first and by a search from the start when it is not there. The
  result is \<open>None\<close> for \<open>kFALSE\<close>. (The \<open>Info\<close> message before the search is
  informational and is not recorded.)
\<close>

definition SqlObjectInfo :: "int \<Rightarrow> TBufferSQL2 \<Rightarrow> (string \<times> int) option" where
  "SqlObjectInfo objid s =
     (case fObjectsInfos s of
        None \<Rightarrow> None
      | Some infos \<Rightarrow>
          if objid < 0 then None
          else (let shift = objid - fFirstObjId s;
                    info = (if shift \<ge> 0 \<and> shift \<le> int (length infos) - 1
                            then (if GetObjId (infos ! nat shift) \<noteq> objid then None
                                  else Some (infos ! nat shift))
                            else None);
                    info' = (case info of
                               Some i \<Rightarrow> Some i
                             | None \<Rightarrow> find (\<lambda>i. GetObjId i = objid) infos)
                in map_option (\<lambda>i. (GetObjClassName i, GetObjVersion i)) info'))"

text \<open>
  \<open>SqlReadObject(obj, cl, streamer, streamer_index, onFileClass)\<close>. The result is the
  pointer returned and the class left in \<open>*cl\<close>. \<open>GetClass\<close> is \<open>TClass::GetClass\<close> of the
  reflection system. The last step, for an object that has to be read from its tables,
  is the call of \<open>SqlReadObjectDirect\<close>, which looks the class up, creates the instance
  and enters its callback; it is the parameter \<open>Direct\<close> here, applied to the pointer, the
  object id and the state. \<open>None\<close> stands for the null dereference of \<open>fCurrentData\<close>.
\<close>

type_synonym direct_reader =
  "int \<Rightarrow> int \<Rightarrow> TBufferSQL2 \<Rightarrow> ((int \<times> TClass option) \<times> TBufferSQL2) option"

definition SqlReadObject ::
  "(string \<Rightarrow> TClass option) \<Rightarrow> direct_reader \<Rightarrow> int \<Rightarrow> TBufferSQL2
     \<Rightarrow> ((int \<times> TClass option) \<times> TBufferSQL2) option" where
  "SqlReadObject GetClass Direct obj s =
     (if fErrorFlag s > 0 then Some ((obj, None), s)
      else case cur_data s of
        None \<Rightarrow> None
      | Some d \<Rightarrow>
          (let refid = (case GetValue d of None \<Rightarrow> [] | Some v \<Rightarrow> v) in
           if refid = []
           then Some ((obj, None),
                      (Error ''SqlReadObject'' ''Invalid object reference value'' s)\<lparr>fErrorFlag := 1\<rparr>)
           else
             (let objid = (case scan_lld refid of None \<Rightarrow> - 1 | Some (n, _) \<Rightarrow> n);
                  found =
                    (if \<not> IsBlobData d \<or> VerifyDataType d sqlio_ObjectPtr
                     then (if objid = 0 then Some (0, None)
                           else if objid = - 1 then Some (obj, None)
                           else (case fObjMap s of
                                   None \<Rightarrow> None
                                 | Some m \<Rightarrow>
                                     if objid \<ge> fFirstObjId s
                                     then (let obj1 = TExMap_GetValue m (objid - fFirstObjId s)
                                           in if obj1 \<noteq> 0
                                              then Some (obj1,
                                                     (case SqlObjectInfo objid s of
                                                        None \<Rightarrow> None
                                                      | Some (clname, version) \<Rightarrow> GetClass clname))
                                              else None)
                                     else None))
                     else None)
              in case found of
                   Some res \<Rightarrow> Some (res, upd_cur ShiftToNextValue s)
                 | None \<Rightarrow>
                     if IsBlobData d \<and> \<not> VerifyDataType d sqlio_ObjectRef
                     then Some ((obj, None),
                                (Error ''SqlReadObject''
                                   ''Object reference or pointer is not found in blob data'' s)
                                \<lparr>fErrorFlag := 1\<rparr>)
                     else Direct obj objid (upd_cur ShiftToNextValue s))))"

text \<open>
  Modelled from the spec: \<open>TString::Atoi\<close>, which removes the blanks of the string and
  converts the rest with the C library's \<open>atoi\<close>: the number at the start of the text as an
  \<open>int\<close>, 0 when there is none.
\<close>

definition Atoi :: "string \<Rightarrow> int" where
  "Atoi v = (case scan_d (filter (\<lambda>c. c \<noteq> CHR '' '') v) of None \<Rightarrow> 0 | Some (n, _) \<Rightarrow> n)"

text \<open>
  \<open>ReadVersion\<close>: the version deposited by the object-info lookup, or a version-tagged
  value of free-form data. The result is a \<open>Version_t\<close>: the \<open>Int_t\<close> taken from
  \<open>fReadVersionBuffer\<close> or from \<open>Atoi\<close> is narrowed to 16 bits. The error flag is not
  tested.
\<close>

definition ReadVersion :: "TBufferSQL2 \<Rightarrow> int \<times> TBufferSQL2" where
  "ReadVersion s =
     (if fReadVersionBuffer s \<ge> 0
      then (Version_t_of_Int (fReadVersionBuffer s), s\<lparr>fReadVersionBuffer := - 1\<rparr>)
      else (case cur_data s of
              None \<Rightarrow> (0, (Error ''ReadVersion'' ''No correspondent tags to read version'' s)
                            \<lparr>fErrorFlag := 1\<rparr>)
            | Some d \<Rightarrow>
                if IsBlobData d \<and> VerifyDataType d sqlio_Version
                then (Version_t_of_Int (Atoi (case GetValue d of None \<Rightarrow> [] | Some v \<Rightarrow> v)),
                      upd_cur ShiftToNextValue s)
                else (0, (Error ''ReadVersion'' ''No correspondent tags to read version'' s)
                           \<lparr>fErrorFlag := 1\<rparr>)))"

text \<open>
  Modelled from the spec: \<open>DefineObjectId\<close> of the current node, the id of the object the
  node belongs to: the id of the nearest Object node on the way to the root, -1 when
  there is none.
\<close>

fun object_id_from :: "nat \<Rightarrow> TSQLStructure list \<Rightarrow> nat option \<Rightarrow> int" where
  "object_id_from 0 ns p = - 1"
| "object_id_from (Suc k) ns None = - 1"
| "object_id_from (Suc k) ns (Some i) =
     (if i < length ns
      then (if fType (ns ! i) = kSqlObject then fObjId (ns ! i)
            else object_id_from k ns (fParent (ns ! i)))
      else - 1)"

definition Stack_DefineObjectId :: "TBufferSQL2 \<Rightarrow> int" where
  "Stack_DefineObjectId s = object_id_from (length (nodes s)) (nodes s) (fStk s)"

text \<open>\<open>SqlReadCharStarValue\<close>: a string value; a value that is the code of a long string
  is replaced by the string the storage layer keeps under that code.\<close>

definition SqlReadCharStarValue :: "TBufferSQL2 \<Rightarrow> string option \<times> TBufferSQL2" where
  "SqlReadCharStarValue s =
     (case SqlReadValue sqlio_CharStar s of
        (None, s1) \<Rightarrow> (None, s1)
      | (Some res, s1) \<Rightarrow>
          (case fSQL s1 of
             None \<Rightarrow> (None, s1)
           | Some f \<Rightarrow>
               (let objid = Stack_DefineObjectId s1;
                    strid = IsLongStringCode f objid res
                in if strid \<le> 0 then (Some res, s1)
                   else (Some (GetLongString f objid strid),
                         s1\<lparr>fReadBuffer := GetLongString f objid strid\<rparr>))))"

text \<open>
  \<open>SqlObjectData(objid, sqlinfo)\<close>: the object data of one object for one class. The result
  is the pointer to the new \<open>TSQLObjectData\<close> (null when the request fails) and the new
  state; \<open>None\<close> stands for the null dereference of \<open>fSQL\<close>. Every call of
  \<open>GetNormalClassDataAll\<close> is recorded in \<open>fetches\<close>.
\<close>

text \<open>Modelled from the spec: the constructor of \<open>TSQLObjectData\<close>: the cursor is on the
  free-form values, from the statement when there is one and from the result otherwise.\<close>

definition TSQLObjectData_new ::
  "TSQLClassInfo \<Rightarrow> int \<Rightarrow> TSQLResult option \<Rightarrow> TSQLRow option \<Rightarrow> sql_cell list option
     \<Rightarrow> sql_cell list option \<Rightarrow> TSQLObjectData" where
  "TSQLObjectData_new sqlinfo objid classdata classrow blobdata blobstmt =
     \<lparr>fInfo = Some sqlinfo, fDataObjId = objid, fClassData = classdata, fClassRow = classrow,
      IsBlobData = (classrow = None),
      fCells = (case blobstmt of
                  Some c \<Rightarrow> c
                | None \<Rightarrow> (case blobdata of Some c \<Rightarrow> c | None \<Rightarrow> []))\<rparr>"

definition SqlObjectData ::
  "int \<Rightarrow> TSQLClassInfo \<Rightarrow> TBufferSQL2 \<Rightarrow> (nat option \<times> TBufferSQL2) option" where
  "SqlObjectData objid sqlinfo s =
     (case fSQL s of
        None \<Rightarrow> None
      | Some f \<Rightarrow>
          (let finish = (\<lambda>classdata classrow t.
                 (let blobstmt = GetBlobClassDataStmt f objid sqlinfo;
                      blobdata = (if blobstmt = None then GetBlobClassData f objid sqlinfo else None)
                  in Some (Some (length (odata t)),
                           t\<lparr>odata := odata t @ [TSQLObjectData_new sqlinfo objid classdata classrow
                                                     blobdata blobstmt]\<rparr>)))
           in if IsClassTableExist sqlinfo
              then (let pool0 = (case fPoolsMap s of None \<Rightarrow> None | Some pm \<Rightarrow> pm sqlinfo) in
                    case (if pool0 = None \<and> fLastObjId s \<ge> fFirstObjId s
                          then (let s1 = s\<lparr>fetches := fetches s
                                            @ [(fFirstObjId s, fLastObjId s, sqlinfo)]\<rparr> in
                                case GetNormalClassDataAll f (fFirstObjId s) (fLastObjId s) sqlinfo of
                                  None \<Rightarrow>
                                    Inl (Error ''SqlObjectData''
                                           (''Cannot get data from table '' @ GetClassTableName sqlinfo) s1)
                                | Some alldata \<Rightarrow>
                                    (let pool = \<lparr>GetSqlInfo = sqlinfo, GetClassData = alldata\<rparr>;
                                         pm = (case fPoolsMap s1 of None \<Rightarrow> Map.empty | Some pm \<Rightarrow> pm)
                                     in Inr (Some pool, s1\<lparr>fPoolsMap := Some (pm(sqlinfo \<mapsto> pool))\<rparr>)))
                          else Inr (pool0, s)) of
                      Inl t \<Rightarrow> Some (None, t)
                    | Inr (None, t) \<Rightarrow> Some (None, t)
                    | Inr (Some pool, t) \<Rightarrow>
                        if GetSqlInfo pool \<noteq> sqlinfo
                        then Some (None, Error ''SqlObjectData''
                                           ''Missmatch in pools map !!! CANNOT BE !!!'' t)
                        else (case GetObjectRow pool objid of
                                None \<Rightarrow>
                                  Some (None, Error ''SqlObjectData''
                                                (''Can not find row for objid = '' @ snprintf_d objid
                                                   @ '' in table '' @ GetClassTableName sqlinfo) t)
                              | Some classrow \<Rightarrow> finish (Some (GetClassData pool)) (Some classrow) t))
              else finish None None s))"

text \<open>A sequence of requests for object data, each for an object id and a table
  descriptor, as the objects of a pass are read one after the other.\<close>

fun run_requests :: "(int \<times> TSQLClassInfo) list \<Rightarrow> TBufferSQL2 \<Rightarrow> TBufferSQL2 option" where
  "run_requests [] s = Some s"
| "run_requests ((objid, sqlinfo) # reqs) s =
     (case SqlObjectData objid sqlinfo s of
        None \<Rightarrow> None
      | Some (_, s1) \<Rightarrow> run_requests reqs s1)"

text \<open>The operations of a read pass, for sequences of calls on one buffer.\<close>

datatype engine_op =
    OpReadValue string
  | OpReadInt int
  | OpReadObject int
  | OpReadCharStar
  | OpReadVersion
  | OpReadArrayContent "int list" int bool
  | OpObjectData int TSQLClassInfo
  | OpPushStack
  | OpPopStack

fun engine_step ::
  "(string \<Rightarrow> TClass option) \<Rightarrow> direct_reader \<Rightarrow> engine_op \<Rightarrow> TBufferSQL2 \<Rightarrow> TBufferSQL2 option" where
  "engine_step G Direct (OpReadValue tname) s = Some (snd (SqlReadValue tname s))"
| "engine_step G Direct (OpReadInt val) s = Some (snd (SqlReadBasic_Int val s))"
| "engine_step G Direct (OpReadObject obj) s = map_option snd (SqlReadObject G Direct obj s)"
| "engine_step G Direct OpReadCharStar s = Some (snd (SqlReadCharStarValue s))"
| "engine_step G Direct OpReadVersion s = Some (snd (ReadVersion s))"
| "engine_step G Direct (OpReadArrayContent vname arrsize withsize) s =
     map_option snd (SQLReadArrayContent SqlReadBasic_Int vname arrsize withsize s)"
| "engine_step G Direct (OpObjectData objid sqlinfo) s = map_option snd (SqlObjectData objid sqlinfo s)"
| "engine_step G Direct OpPushStack s = Some (PushStack s)"
| "engine_step G Direct OpPopStack s = Some (PopStack s)"

fun run_ops ::
  "(string \<Rightarrow> TClass option) \<Rightarrow> direct_reader \<Rightarrow> engine_op list \<Rightarrow> TBufferSQL2 \<Rightarrow> TBufferSQL2 option" where
  "run_ops G Direct [] s = Some s"
| "run_ops G Direct (op # ops) s =
     (case engine_step G Direct op s of None \<Rightarrow> None | Some s1 \<Rightarrow> run_ops G Direct ops s1)"

section \<open>Properties of reading\<close>

lemma SqlReadValue_flagged: "fErrorFlag s > 0 \<Longrightarrow> SqlReadValue tname s = (None, s)"
  by (simp add: SqlReadValue_def)

lemma SqlReadBasic_Int_flagged: "fErrorFlag s > 0 \<Longrightarrow> SqlReadBasic_Int val s = (0, s)"
  by (simp add: SqlReadBasic_Int_def SqlReadValue_flagged)

lemma SqlReadObject_flagged:
  "fErrorFlag s > 0 \<Longrightarrow> SqlReadObject G Direct obj s = Some ((obj, None), s)"
  by (simp add: SqlReadObject_def)

lemma fErrorFlag_upd_cur [simp]: "fErrorFlag (upd_cur f s) = fErrorFlag s"
  by (simp add: upd_cur_def split: option.splits)

lemma fErrorFlag_Error [simp]: "fErrorFlag (Error loc msg s) = fErrorFlag s"
  by (simp add: Error_def)

lemma SQLReadArrayUncompress_flagged:
  "fErrorFlag s > 0 \<Longrightarrow>
   fErrorFlag (snd (SQLReadArrayUncompress SqlReadBasic_Int vname arrsize indx s)) > 0"
proof (induction "SqlReadBasic_Int" vname arrsize indx s rule: SQLReadArrayUncompress.induct)
  case (1 vname arrsize indx s)
  show ?case
  proof (cases "int indx < arrsize")
    case True
    have rd: "SqlReadBasic_Int (vname ! indx) s = (0, s)"
      by (rule SqlReadBasic_Int_flagged [OF "1.prems"])
    show ?thesis
      using "1.hyps" [OF True rd [symmetric] "1.prems"] True rd
      by (subst SQLReadArrayUncompress.simps) simp
  next
    case False
    then show ?thesis using "1.prems" by (subst SQLReadArrayUncompress.simps) simp
  qed
qed

lemma SQLReadArrayCompress_flagged:
  "fErrorFlag s > 0 \<Longrightarrow>
   SQLReadArrayCompress SqlReadBasic_Int vname arrsize indx s = Some (v, s') \<Longrightarrow> fErrorFlag s' > 0"
proof (induction "SqlReadBasic_Int" vname arrsize indx s rule: SQLReadArrayCompress.induct)
  case (1 vname arrsize indx s)
  have rd: "SqlReadBasic_Int (vname ! indx) s = (0, s)"
    by (rule SqlReadBasic_Int_flagged [OF "1.prems"(1)])
  show ?case
  proof (cases "int indx < arrsize")
    case False
    then show ?thesis using "1.prems" by (subst (asm) SQLReadArrayCompress.simps) simp
  next
    case True
    from "1.prems"(2) True obtain d name first where
      d: "cur_data s = Some d" "GetBlobPrefixName d = Some name" "fst (scan_tag name) = Some first"
      by (subst (asm) SQLReadArrayCompress.simps) (auto split: option.splits)
    show ?thesis
    proof (cases "first \<noteq> int indx")
      case True
      then show ?thesis
        using "1.prems" \<open>int indx < arrsize\<close> d
        by (subst (asm) SQLReadArrayCompress.simps) auto
    next
      case False
      from "1.prems"(2) \<open>int indx < arrsize\<close> d False obtain lst where
        l: "snd (scan_tag name) = Some lst"
        by (subst (asm) SQLReadArrayCompress.simps) (auto split: option.splits)
      show ?thesis
      proof (cases "lst < first \<or> lst \<ge> arrsize")
        case True
        then show ?thesis
          using "1.prems" \<open>int indx < arrsize\<close> d False l
          by (subst (asm) SQLReadArrayCompress.simps) auto
      next
        case ok: False
        obtain vname' indx' where
          rr: "replicate_run (vname[indx := 0]) indx lst (indx + 1) = (vname', indx')"
          by (cases "replicate_run (vname[indx := 0]) indx lst (indx + 1)")
        have rec: "SQLReadArrayCompress SqlReadBasic_Int vname' arrsize indx' s = Some (v, s')"
          using "1.prems"(2) \<open>int indx < arrsize\<close> d False l ok rd rr
          by (subst (asm) SQLReadArrayCompress.simps) simp
        show ?thesis
          by (rule "1.hyps" [OF \<open>int indx < arrsize\<close> d(1) d(2) d(3) False l ok rd [symmetric]
                rr [symmetric] "1.prems"(1) rec])
      qed
    qed
  qed
qed

lemma engine_step_flagged:
  assumes "fErrorFlag s > 0" and "engine_step G Direct op s = Some s'"
  shows "fErrorFlag s' > 0"
proof (cases op)
  case (OpReadValue tname)
  then show ?thesis using assms by (simp add: SqlReadValue_flagged)
next
  case (OpReadInt val)
  then show ?thesis using assms by (simp add: SqlReadBasic_Int_flagged)
next
  case (OpReadObject obj)
  then show ?thesis using assms by (simp add: SqlReadObject_flagged)
next
  case OpReadCharStar
  then show ?thesis using assms by (auto simp: SqlReadCharStarValue_def SqlReadValue_flagged)
next
  case OpReadVersion
  then show ?thesis using assms by (auto simp: ReadVersion_def split: option.splits if_splits)
next
  case (OpReadArrayContent vname arrsize withsize)
  let ?s1 = "on_Stack (SetArray (if withsize then arrsize else - 1)) (PushStack s)"
  have f1: "fErrorFlag ?s1 > 0" using assms(1) by simp
  from assms(2) OpReadArrayContent obtain d where d: "cur_data ?s1 = Some d"
    by (auto simp: SQLReadArrayContent_def Let_def split: option.splits)
  show ?thesis
  proof (cases "IsBlobData d")
    case True
    then obtain v s2 where s2: "SQLReadArrayCompress SqlReadBasic_Int vname arrsize 0 ?s1 = Some (v, s2)"
        and s': "s' = PopStack s2"
      using assms(2) OpReadArrayContent d
      by (auto simp: SQLReadArrayContent_def Let_def split: option.splits)
    show ?thesis unfolding s' using SQLReadArrayCompress_flagged [OF f1 s2] by simp
  next
    case False
    then have s': "s' = PopStack (snd (SQLReadArrayUncompress SqlReadBasic_Int vname arrsize 0 ?s1))"
      using assms(2) OpReadArrayContent d
      by (auto simp: SQLReadArrayContent_def Let_def split: option.splits prod.splits)
    show ?thesis unfolding s' using SQLReadArrayUncompress_flagged [OF f1] by simp
  qed
next
  case (OpObjectData objid sqlinfo)
  then show ?thesis using assms
    by (auto simp: SqlObjectData_def Let_def split: option.splits if_splits sum.splits prod.splits)
next
  case OpPushStack
  then show ?thesis using assms by auto
next
  case OpPopStack
  then show ?thesis using assms by auto
qed

lemma run_ops_flagged:
  "fErrorFlag s > 0 \<Longrightarrow> run_ops G Direct ops s = Some s' \<Longrightarrow> fErrorFlag s' > 0"
proof (induction ops arbitrary: s)
  case Nil
  then show ?case by simp
next
  case (Cons op ops)
  then obtain s1 where s1: "engine_step G Direct op s = Some s1" "run_ops G Direct ops s1 = Some s'"
    by (auto split: option.splits)
  have "fErrorFlag s1 > 0" by (rule engine_step_flagged [OF Cons.prems(1) s1(1)])
  then show ?case using Cons.IH s1(2) by blast
qed


definition flagged_buffer :: TBufferSQL2 where
  "flagged_buffer =
     (reading_buffer (blob_data [\<lparr>BlobPrefixName = [], BlobTypeName = sqlio_Int,
                                   LocatedValue = Some ''12''\<rparr>]))\<lparr>fErrorFlag := 1\<rparr>"


definition flagged_version_buffer :: TBufferSQL2 where
  "flagged_version_buffer = flagged_buffer\<lparr>fReadVersionBuffer := 3\<rparr>"

definition flagged_version_data :: TBufferSQL2 where
  "flagged_version_data =
     (reading_buffer (blob_data [\<lparr>BlobPrefixName = [], BlobTypeName = sqlio_Version,
                                   LocatedValue = Some ''7''\<rparr>]))\<lparr>fErrorFlag := 1\<rparr>"

theorem sticky_error_flag_counterexample:
  "fErrorFlag flagged_version_buffer = 1
   \<and> fReadVersionBuffer flagged_version_buffer = 3
   \<and> fst (ReadVersion flagged_version_buffer) = 3
   \<and> fReadVersionBuffer (snd (ReadVersion flagged_version_buffer)) = - 1
   \<and> fErrorFlag flagged_version_data = 1
   \<and> fst (ReadVersion flagged_version_data) = 7
   \<and> cur_data (snd (ReadVersion flagged_version_data)) = Some (blob_data [])"
proof -
  have sc: "scan_d ''7'' = Some (7, [])" by code_simp
  have a: "fErrorFlag flagged_version_buffer = 1 \<and> fReadVersionBuffer flagged_version_buffer = 3
         \<and> fst (ReadVersion flagged_version_buffer) = 3
         \<and> fReadVersionBuffer (snd (ReadVersion flagged_version_buffer)) = - 1"
    by (simp add: flagged_version_buffer_def flagged_buffer_def reading_buffer_def
        TBufferSQL2_new_def ReadVersion_def Version_t_of_Int_def)
  have b: "fErrorFlag flagged_version_data = 1
         \<and> fst (ReadVersion flagged_version_data) = 7
         \<and> cur_data (snd (ReadVersion flagged_version_data)) = Some (blob_data [])"
    using sc
    by (simp add: flagged_version_data_def reading_buffer_def TBufferSQL2_new_def ReadVersion_def
        cur_data_def blob_data_def VerifyDataType_def GetValue_def Atoi_def upd_cur_def
        ShiftToNextValue_def Version_t_of_Int_def)
  show ?thesis using a b by simp
qed

text \<open>
  Claim C5. Writing a null object pointer leaves a reference node with value 0 and
  returns id 0. On read, when the current value is the text of reference value 0 and is
  a pointer value (column data, or free-form data marked as object pointer), and no error
  is pending, \<open>SqlReadObject\<close> returns the null instance and only moves the cursor to the
  next value: the registry is neither consulted (the result is the same for every
  content of \<open>fObjMap\<close>) nor changed, and \<open>SqlReadObjectDirect\<close> is not entered.
\<close>

theorem null_reference:
  assumes "\<not> fErrorFlag r > 0"
    and "cur_data r = Some d"
    and "GetValue d = Some (snprintf_d 0)"
    and "\<not> IsBlobData d \<or> VerifyDataType d sqlio_ObjectPtr"
  shows "SqlWriteObject fuel D 0 cl st idx s = Some (0, reference_only 0 s)
       \<and> nodes (reference_only 0 s) ! length (nodes s)
           = new_TSQLStructure\<lparr>fParent := fStk s, fType := kSqlPointer, fObjId := 0\<rparr>
       \<and> (\<forall>m. SqlReadObject G Direct obj (r\<lparr>fObjMap := m\<rparr>)
                = Some ((0, None), (upd_cur ShiftToNextValue r)\<lparr>fObjMap := m\<rparr>))"
proof -
  have sc: "scan_lld (snprintf_d 0) = Some (0, [])"
    using scan_lld_snprintf_d [of 0 "[]"] by simp
  have ne: "snprintf_d 0 \<noteq> []"
    by (simp add: snprintf_d_def dec_digits_nonempty)
  have rd: "SqlReadObject G Direct obj (r\<lparr>fObjMap := m\<rparr>)
              = Some ((0, None), (upd_cur ShiftToNextValue r)\<lparr>fObjMap := m\<rparr>)" for m
  proof -
    have c: "cur_data (r\<lparr>fObjMap := m\<rparr>) = Some d"
      using assms(2) by (auto simp: cur_data_def split: option.splits)
    have u: "upd_cur ShiftToNextValue (r\<lparr>fObjMap := m\<rparr>) = (upd_cur ShiftToNextValue r)\<lparr>fObjMap := m\<rparr>"
      by (simp add: upd_cur_def split: option.splits)
    show ?thesis
      using assms(1,3,4) c sc ne by (auto simp: SqlReadObject_def Let_def u)
  qed
  show ?thesis
    using SqlWriteObject_null [of cl 0 fuel D st idx s] nodes_reference_only(2) [of 0 s] rd
    by simp
qed

definition null_reference_data :: TSQLObjectData where
  "null_reference_data =
     blob_data [\<lparr>BlobPrefixName = [], BlobTypeName = sqlio_ObjectPtr, LocatedValue = Some ''0''\<rparr>,
                \<lparr>BlobPrefixName = [], BlobTypeName = sqlio_Int, LocatedValue = Some ''5''\<rparr>]"

theorem null_reference_witness:
  "SqlWriteObject 0 (\<lambda>c a. []) 0 (Some ''A'') None 0 (TBufferSQL2_new None)
     = Some (0, reference_only 0 (TBufferSQL2_new None))
   \<and> SqlReadObject (\<lambda>n. Some n) (\<lambda>obj objid s. None) 42
        ((reading_buffer null_reference_data)\<lparr>fObjMap := Some [0 \<mapsto> 42]\<rparr>)
       = Some ((0, None),
               (upd_cur ShiftToNextValue (reading_buffer null_reference_data))
                 \<lparr>fObjMap := Some [0 \<mapsto> 42]\<rparr>)"
proof -
  have h1: "\<not> fErrorFlag (reading_buffer null_reference_data) > 0"
    by (simp add: reading_buffer_def TBufferSQL2_new_def)
  have h2: "cur_data (reading_buffer null_reference_data) = Some null_reference_data"
    by (simp add: reading_buffer_def cur_data_def)
  have z: "snprintf_d 0 = ''0''" by code_simp
  have h3: "GetValue null_reference_data = Some (snprintf_d 0)"
    unfolding z by (simp add: GetValue_def null_reference_data_def blob_data_def)
  have h4: "\<not> IsBlobData null_reference_data \<or> VerifyDataType null_reference_data sqlio_ObjectPtr"
    by (simp add: VerifyDataType_def null_reference_data_def blob_data_def)
  from null_reference [OF h1 h2 h3 h4, of 0 "\<lambda>c a. []" "Some ''A''" None 0 "TBufferSQL2_new None"
         "\<lambda>n. Some n" "\<lambda>obj objid s. None" 42]
  show ?thesis by blast
qed

text \<open>
  Claim C7, as the code has it. \<open>SqlWriteValue\<close> stores every value with the type marker
  it is given (\<open>SqlWriteBasic\<close> for \<open>Int_t\<close> gives the marker of \<open>Int_t\<close>). On read, with no
  error pending and unless verification is switched off by \<open>fIgnoreVerification\<close>, the
  marker of the current value is verified first: on a mismatch the error flag is set,
  null (for a basic read, 0) is returned and the value is not consumed; otherwise the
  value is returned and the cursor moves on.
\<close>

theorem type_marker_checked:
  assumes "\<not> fErrorFlag s > 0" and "cur_data s = Some d" and "fStk w = Some p"
  shows "nodes (SqlWriteValue v tname w) ! length (nodes w)
           = new_TSQLStructure\<lparr>fParent := Some p, fType := kSqlValue, fValue := v, fTypeName := tname\<rparr>
       \<and> SqlWriteBasic_Int i w = SqlWriteValue (snprintf_d i) sqlio_Int w
       \<and> (\<not> fIgnoreVerification s \<and> \<not> VerifyDataType d tname \<longrightarrow>
             SqlReadValue tname s = (None, s\<lparr>fErrorFlag := 1\<rparr>))
       \<and> (\<not> fIgnoreVerification s \<and> \<not> VerifyDataType d sqlio_Int \<longrightarrow>
             SqlReadBasic_Int val s = (0, s\<lparr>fErrorFlag := 1\<rparr>))
       \<and> (fIgnoreVerification s \<or> VerifyDataType d tname \<longrightarrow>
             SqlReadValue tname s
               = (Some (case GetValue d of None \<Rightarrow> [] | Some x \<Rightarrow> x),
                  upd_cur ShiftToNextValue
                    (s\<lparr>fReadBuffer := (case GetValue d of None \<Rightarrow> [] | Some x \<Rightarrow> x)\<rparr>)))"
  using assms
  by (auto simp: SqlReadValue_def SqlReadBasic_Int_def SqlWriteValue_def Stack_AddValue_def
      SqlWriteBasic_Int_def nth_append Let_def)

definition mismatched_buffer :: TBufferSQL2 where
  "mismatched_buffer =
     reading_buffer (blob_data [\<lparr>BlobPrefixName = [], BlobTypeName = sqlio_Char,
                                  LocatedValue = Some ''12''\<rparr>])"

theorem type_marker_checked_witness:
  "SqlReadValue sqlio_Int mismatched_buffer = (None, mismatched_buffer\<lparr>fErrorFlag := 1\<rparr>)
   \<and> SqlReadBasic_Int 7 mismatched_buffer = (0, mismatched_buffer\<lparr>fErrorFlag := 1\<rparr>)
   \<and> SqlReadValue sqlio_Char mismatched_buffer
       = (Some ''12'', upd_cur ShiftToNextValue (mismatched_buffer\<lparr>fReadBuffer := ''12''\<rparr>))"
proof -
  let ?d = "blob_data [\<lparr>BlobPrefixName = [], BlobTypeName = sqlio_Char, LocatedValue = Some ''12''\<rparr>]"
  have h1: "\<not> fErrorFlag mismatched_buffer > 0"
    by (simp add: mismatched_buffer_def reading_buffer_def TBufferSQL2_new_def)
  have h2: "cur_data mismatched_buffer = Some ?d"
    by (simp add: mismatched_buffer_def reading_buffer_def cur_data_def)
  have h3: "fStk (PushStack (TBufferSQL2_new None)) = Some 0"
    by (simp add: PushStack_def TBufferSQL2_new_def)
  have v: "\<not> fIgnoreVerification mismatched_buffer" "\<not> VerifyDataType ?d sqlio_Int"
      "VerifyDataType ?d sqlio_Char" "GetValue ?d = Some ''12''"
    by (simp_all add: mismatched_buffer_def reading_buffer_def TBufferSQL2_new_def
        VerifyDataType_def blob_data_def sqlio_Int_def sqlio_Char_def GetValue_def)
  from type_marker_checked [OF h1 h2 h3, of "[]" sqlio_Int 0 7]
       type_marker_checked [OF h1 h2 h3, of "[]" sqlio_Char 0 7] v
  show ?thesis by simp
qed

definition unverified_buffer :: TBufferSQL2 where
  "unverified_buffer = mismatched_buffer\<lparr>fIgnoreVerification := True\<rparr>"

theorem type_marker_checked_counterexample:
  "cur_data unverified_buffer
     = Some (blob_data [\<lparr>BlobPrefixName = [], BlobTypeName = sqlio_Char, LocatedValue = Some ''12''\<rparr>])
   \<and> \<not> VerifyDataType
         (blob_data [\<lparr>BlobPrefixName = [], BlobTypeName = sqlio_Char, LocatedValue = Some ''12''\<rparr>])
         sqlio_Int
   \<and> fst (SqlReadValue sqlio_Int unverified_buffer) = Some ''12''
   \<and> fErrorFlag (snd (SqlReadValue sqlio_Int unverified_buffer)) = 0
   \<and> fst (SqlReadBasic_Int 0 unverified_buffer) = 12"
proof -
  have sc: "scan_d ''12'' = Some (12, [])" by code_simp
  show ?thesis
    using sc
    by (simp add: unverified_buffer_def mismatched_buffer_def reading_buffer_def cur_data_def
        TBufferSQL2_new_def VerifyDataType_def blob_data_def sqlio_Int_def sqlio_Char_def
        SqlReadValue_def SqlReadBasic_Int_def GetValue_def upd_cur_def Let_def)
qed

section \<open>Properties of the class row cache\<close>

definition fetch_count :: "TSQLClassInfo \<Rightarrow> TBufferSQL2 \<Rightarrow> nat" where
  "fetch_count d s = length (filter (\<lambda>(lo, hi, i). i = d) (fetches s))"

definition cached :: "TBufferSQL2 \<Rightarrow> TSQLClassInfo \<Rightarrow> TSQLObjectDataPool option" where
  "cached s d = (case fPoolsMap s of None \<Rightarrow> None | Some pm \<Rightarrow> pm d)"

lemma SqlObjectData_effect:
  assumes "SqlObjectData objid e s = Some (r, s')" and "fSQL s = Some f"
  shows "fSQL s' = fSQL s \<and> fFirstObjId s' = fFirstObjId s \<and> fLastObjId s' = fLastObjId s
       \<and> (if IsClassTableExist e \<and> cached s e = None \<and> fLastObjId s \<ge> fFirstObjId s
           then fetches s' = fetches s @ [(fFirstObjId s, fLastObjId s, e)]
              \<and> (\<forall>d. cached s' d =
                    (case GetNormalClassDataAll f (fFirstObjId s) (fLastObjId s) e of
                       None \<Rightarrow> cached s d
                     | Some alldata \<Rightarrow>
                         if d = e then Some \<lparr>GetSqlInfo = e, GetClassData = alldata\<rparr> else cached s d))
           else fetches s' = fetches s \<and> (\<forall>d. cached s' d = cached s d))"
proof (cases "IsClassTableExist e")
  case False
  then show ?thesis
    using assms by (auto simp: SqlObjectData_def Let_def cached_def)
next
  case True
  show ?thesis
  proof (cases "cached s e = None \<and> fLastObjId s \<ge> fFirstObjId s")
    case fetch: True
    show ?thesis
    proof (cases "GetNormalClassDataAll f (fFirstObjId s) (fLastObjId s) e")
      case None
      then show ?thesis
        using assms True fetch
        by (auto simp: SqlObjectData_def Let_def cached_def Error_def)
    next
      case (Some alldata)
      then show ?thesis
        using assms True fetch
        by (auto simp: SqlObjectData_def Let_def cached_def Error_def GetObjectRow_def
            split: option.splits if_splits)
    qed
  next
    case nofetch: False
    then show ?thesis
      using assms True
      by (auto simp: SqlObjectData_def Let_def cached_def Error_def
          split: option.splits if_splits)
  qed
qed


text \<open>The invariant of the cache for a descriptor \<open>d\<close> whose bulk fetch succeeds: \<open>d\<close>
  has been fetched once when it is cached and not at all when it is not, the cached pool
  holds the fetched rows, and every fetch covered the id range of the pass.\<close>

definition pool_inv :: "TSQLFile \<Rightarrow> TSQLClassInfo \<Rightarrow> TSQLResult \<Rightarrow> int \<Rightarrow> int \<Rightarrow> TBufferSQL2 \<Rightarrow> bool" where
  "pool_inv f d alldata lo hi s =
     (fSQL s = Some f \<and> fFirstObjId s = lo \<and> fLastObjId s = hi
      \<and> (cached s d = None \<longrightarrow> fetch_count d s = 0)
      \<and> (cached s d \<noteq> None \<longrightarrow>
            fetch_count d s = 1 \<and> cached s d = Some \<lparr>GetSqlInfo = d, GetClassData = alldata\<rparr>)
      \<and> (\<forall>x \<in> set (fetches s). fst x = lo \<and> fst (snd x) = hi))"

lemma pool_inv_step:
  assumes inv: "pool_inv f d alldata lo hi s"
    and ok: "GetNormalClassDataAll f lo hi d = Some alldata"
    and run: "SqlObjectData objid e s = Some (r, s')"
  shows "pool_inv f d alldata lo hi s'"
proof -
  have f: "fSQL s = Some f" and lo: "fFirstObjId s = lo" and hi: "fLastObjId s = hi"
    using inv by (simp_all add: pool_inv_def)
  note eff = SqlObjectData_effect [OF run f]
  show ?thesis
  proof (cases "IsClassTableExist e \<and> cached s e = None \<and> fLastObjId s \<ge> fFirstObjId s")
    case False
    then have "fetches s' = fetches s" "\<forall>x. cached s' x = cached s x"
      using eff by simp_all
    then show ?thesis
      using inv eff by (simp add: pool_inv_def fetch_count_def)
  next
    case True
    then have fe: "fetches s' = fetches s @ [(lo, hi, e)]"
      using eff lo hi by simp
    have ca: "\<forall>x. cached s' x =
                (case GetNormalClassDataAll f lo hi e of
                   None \<Rightarrow> cached s x
                 | Some a \<Rightarrow> if x = e then Some \<lparr>GetSqlInfo = e, GetClassData = a\<rparr> else cached s x)"
      using eff True lo hi by simp
    show ?thesis
    proof (cases "e = d")
      case same: True
      have "cached s d = None" using True same by simp
      then have "fetch_count d s = 0" using inv by (simp add: pool_inv_def)
      then show ?thesis
        using inv eff fe ca same ok by (simp add: pool_inv_def fetch_count_def)
    next
      case other: False
      have "cached s' d = cached s d"
        using ca other by (simp split: option.splits)
      moreover have "fetch_count d s' = fetch_count d s"
        using fe other by (simp add: fetch_count_def)
      ultimately show ?thesis
        using inv eff fe by (simp add: pool_inv_def)
    qed
  qed
qed

lemma pool_inv_run:
  "pool_inv f d alldata lo hi s \<Longrightarrow> GetNormalClassDataAll f lo hi d = Some alldata \<Longrightarrow>
   run_requests reqs s = Some s' \<Longrightarrow> pool_inv f d alldata lo hi s'"
proof (induction reqs arbitrary: s)
  case Nil
  then show ?case by simp
next
  case (Cons q reqs)
  obtain objid e where q: "q = (objid, e)" by (cases q)
  from Cons.prems(3) obtain r s1 where
    s1: "SqlObjectData objid e s = Some (r, s1)" "run_requests reqs s1 = Some s'"
    unfolding q by (auto split: option.splits)
  have "pool_inv f d alldata lo hi s1"
    by (rule pool_inv_step [OF Cons.prems(1,2) s1(1)])
  then show ?case using Cons.IH Cons.prems(2) s1(2) by blast
qed

lemma cached_request_no_fetch:
  assumes "cached s d \<noteq> None" and "fSQL s = Some f"
  shows "\<exists>r t. SqlObjectData objid d s = Some (r, t) \<and> fetches t = fetches s"
  using assms
  by (auto simp: SqlObjectData_def Let_def cached_def Error_def split: option.splits)

text \<open>
  Claim C6, as the code has it. A pass starts with no pool and no fetch. For a descriptor
  whose bulk fetch returns a result, after any sequence of \<open>SqlObjectData\<close> requests (for
  any object ids and descriptors) at most one bulk fetch of that descriptor was issued;
  it was issued exactly when the descriptor is cached, the cached pool holds the rows
  fetched, every fetch covered the range from \<open>fFirstObjId\<close> to \<open>fLastObjId\<close>, and a further
  request for a cached descriptor (for any object id) issues no fetch.
\<close>

theorem pool_fetched_once:
  assumes "fSQL s = Some f" and "fPoolsMap s = None" and "fetches s = []"
    and "GetNormalClassDataAll f (fFirstObjId s) (fLastObjId s) d = Some alldata"
    and "run_requests reqs s = Some s'"
  shows "fetch_count d s' \<le> 1
       \<and> (fetch_count d s' = 1 \<longleftrightarrow> cached s' d \<noteq> None)
       \<and> (cached s' d \<noteq> None \<longrightarrow> cached s' d = Some \<lparr>GetSqlInfo = d, GetClassData = alldata\<rparr>)
       \<and> (\<forall>x \<in> set (fetches s'). fst x = fFirstObjId s \<and> fst (snd x) = fLastObjId s)
       \<and> (cached s' d \<noteq> None \<longrightarrow>
            (\<forall>objid. \<exists>r t. SqlObjectData objid d s' = Some (r, t) \<and> fetches t = fetches s'))"
proof -
  have start: "pool_inv f d alldata (fFirstObjId s) (fLastObjId s) s"
    using assms(1,2,3) by (simp add: pool_inv_def cached_def fetch_count_def)
  have inv: "pool_inv f d alldata (fFirstObjId s) (fLastObjId s) s'"
    by (rule pool_inv_run [OF start assms(4,5)])
  have f': "fSQL s' = Some f" using inv by (simp add: pool_inv_def)
  have again: "cached s' d \<noteq> None \<longrightarrow>
            (\<forall>objid. \<exists>r t. SqlObjectData objid d s' = Some (r, t) \<and> fetches t = fetches s')"
    using cached_request_no_fetch [OF _ f'] by blast
  show ?thesis
    using inv again unfolding pool_inv_def by (cases "cached s' d = None") simp_all
qed

definition class_A :: TSQLClassInfo where
  "class_A = \<lparr>fClassName = ''A'', fClassVersion = 1, GetClassTableName = ''A_ver1'',
              IsClassTableExist = True\<rparr>"

definition storage :: "TSQLResult option \<Rightarrow> TSQLFile" where
  "storage answer =
     \<lparr>GetNormalClassDataAll = (\<lambda>lo hi info. answer),
      GetBlobClassDataStmt = (\<lambda>objid info. None),
      GetBlobClassData = (\<lambda>objid info. None),
      IsLongStringCode = (\<lambda>objid str. 0),
      GetLongString = (\<lambda>objid strid. []),
      FindSQLClassInfo = (\<lambda>name version. None),
      SQLObjectsInfo = (\<lambda>keyid. None),
      GetCompressionLevel = 1\<rparr>"

definition read_pass :: "TSQLFile \<Rightarrow> TBufferSQL2" where
  "read_pass f = (TBufferSQL2_new (Some f))\<lparr>fFirstObjId := 1, fLastObjId := 2\<rparr>"

theorem pool_fetched_once_witness:
  "map_option (fetch_count class_A)
     (run_requests [(1, class_A), (2, class_A)]
        (read_pass (storage (Some [(1, [''1'', ''x'']), (2, [''2'', ''y''])])))) = Some 1"
proof -
  let ?f = "storage (Some [(1, [''1'', ''x'']), (2, [''2'', ''y''])])"
  let ?s = "read_pass ?f"
  have h: "fSQL ?s = Some ?f" "fPoolsMap ?s = None" "fetches ?s = []"
      "GetNormalClassDataAll ?f (fFirstObjId ?s) (fLastObjId ?s) class_A
         = Some [(1, [''1'', ''x'']), (2, [''2'', ''y''])]"
    by (simp_all add: read_pass_def TBufferSQL2_new_def storage_def)
  have ev: "(case run_requests [(1, class_A), (2, class_A)] ?s of
               None \<Rightarrow> False | Some t \<Rightarrow> fetch_count class_A t = 1)"
    by (simp add: SqlObjectData_def read_pass_def TBufferSQL2_new_def storage_def class_A_def
        Let_def GetObjectRow_def fetch_count_def TSQLObjectData_new_def)
  then obtain t where t: "run_requests [(1, class_A), (2, class_A)] ?s = Some t"
    by (auto split: option.splits)
  from pool_fetched_once [OF h t] ev t show ?thesis by simp
qed

theorem pool_fetched_once_counterexample:
  "map_option (fetch_count class_A)
     (run_requests [(1, class_A), (2, class_A)] (read_pass (storage None))) = Some 2"
  by (simp add: SqlObjectData_def read_pass_def TBufferSQL2_new_def storage_def class_A_def
      Let_def fetch_count_def Error_def)

end
